theory Spec2Isabelle
  imports Main "HOL-Library.AList"
begin

section \<open>Shared constants and Python primitives\<close>

text \<open>
  The module constants of \<^verbatim>\<open>AIO_begginer_projects_refined.py\<close> that the two game
  engines use.
\<close>

definition PLAYER_X :: string where
  "PLAYER_X = ''X''"

definition PLAYER_O :: string where
  "PLAYER_O = ''O''"

definition TIE_RESULT :: string where
  "TIE_RESULT = ''tie''"

text \<open>
  The exceptions that the modelled code can raise. \<open>EOFError\<close> is what \<^verbatim>\<open>input()\<close>
  raises when the scripted input is exhausted, \<open>RecursionError\<close> what Python raises when
  the menu methods of the rock-paper-scissors engine nest deeper than the call-depth bound.
\<close>

datatype error = IndexError | EOFError | KeyError | RecursionError

text \<open>Python's \<^verbatim>\<open>str(i)\<close> on an integer: decimal digits, with a minus sign if negative.\<close>

definition digit_char :: "nat \<Rightarrow> char" where
  "digit_char d = ''0123456789'' ! d"

fun digits_of :: "nat \<Rightarrow> string" where
  "digits_of n =
     (if n < 10 then [digit_char n] else digits_of (n div 10) @ [digit_char (n mod 10)])"

declare digits_of.simps [simp del]

definition str :: "int \<Rightarrow> string" where
  "str i = (if i < 0 then CHR ''-'' # digits_of (nat (- i)) else digits_of (nat i))"

text \<open>
  Python's sequence indexing \<^verbatim>\<open>xs[i]\<close>: a negative index counts from the end, and an
  index outside the sequence raises \<open>IndexError\<close>. The result is the position that is
  read or written.
\<close>

definition py_index :: "'a list \<Rightarrow> int \<Rightarrow> error + nat" where
  "py_index xs i =
     (let n = int (length xs); j = (if i < 0 then i + n else i)
      in if 0 \<le> j \<and> j < n then Inr (nat j) else Inl IndexError)"

text \<open>Python's \<^verbatim>\<open>divmod(a, 3)\<close>: floor division and a remainder in \<open>0..2\<close>, as \<open>div\<close> and
  \<open>mod\<close> on \<open>int\<close>.\<close>

definition divmod :: "int \<Rightarrow> int \<Rightarrow> int \<times> int" where
  "divmod a b = (a div b, a mod b)"


text \<open>
  Python's \<^verbatim>\<open>str.lower()\<close> and \<^verbatim>\<open>str.strip()\<close> on ASCII text: \<open>A..Z\<close> become \<open>a..z\<close>,
  and the white space removed at both ends is the characters 9-13 and 28-32. Characters
  outside ASCII are left as they are, so the model covers input typed in ASCII.
\<close>

definition lower_char :: "char \<Rightarrow> char" where
  "lower_char c =
     (let k = (of_char c :: nat) in if 65 \<le> k \<and> k \<le> 90 then char_of (k + 32) else c)"

definition lower :: "string \<Rightarrow> string" where
  "lower line = map lower_char line"

definition is_space :: "char \<Rightarrow> bool" where
  "is_space c = (let k = (of_char c :: nat) in (9 \<le> k \<and> k \<le> 13) \<or> (28 \<le> k \<and> k \<le> 32))"

definition strip :: "string \<Rightarrow> string" where
  "strip line = rev (dropWhile is_space (rev (dropWhile is_space line)))"

text \<open>A sequence of raw random draws that is constantly \<open>0\<close>, for running the engines on
  concrete inputs.\<close>

definition no_draws :: "nat \<Rightarrow> nat" where
  "no_draws k = 0"


section \<open>The tic-tac-toe engine (class TicTacToeGame)\<close>

record ttt =
  available_moves :: "int list"
  current_player :: string
  board :: "string list list"

definition create_board :: "string list list" where
  "create_board = [map str [1..3], map str [4..6], map str [7..9]]"

definition reset_game :: "ttt \<Rightarrow> ttt" where
  "reset_game s = s\<lparr>available_moves := [1..9], current_player := PLAYER_X, board := create_board\<rparr>"

text \<open>
  The three statements that \<^verbatim>\<open>get_user_move\<close> (lines 87-89) and \<^verbatim>\<open>get_ai_move\<close>
  (lines 100-102) share: \<^verbatim>\<open>row, col = divmod(move - 1, 3)\<close>,
  \<^verbatim>\<open>self.board[row][col] = self.current_player\<close> and
  \<^verbatim>\<open>self.available_moves.remove(move)\<close>. Both callers pass a move that is in
  \<open>available_moves\<close>, so \<^verbatim>\<open>remove\<close> (which deletes the first occurrence) does not
  raise. The board write raises \<open>IndexError\<close> before anything is changed.
\<close>

definition apply_move :: "ttt \<Rightarrow> int \<Rightarrow> error + ttt" where
  "apply_move s move =
     (case divmod (move - 1) 3 of (row, col) \<Rightarrow>
        (case py_index (board s) row of
           Inl e \<Rightarrow> Inl e
         | Inr r \<Rightarrow>
            (case py_index (board s ! r) col of
               Inl e \<Rightarrow> Inl e
             | Inr c \<Rightarrow>
                 Inr (s\<lparr>board := (board s)[r := (board s ! r)[c := current_player s]],
                        available_moves := remove1 move (available_moves s)\<rparr>))))"

text \<open>
  \<^verbatim>\<open>get_user_move\<close>: the \<^verbatim>\<open>while True\<close> loop over the entries the user types. An entry
  is the outcome of \<^verbatim>\<open>int(input(...))\<close>: \<open>Some n\<close> when the line parses to the integer
  \<open>n\<close>, \<open>None\<close> when \<^verbatim>\<open>int\<close> raises \<open>ValueError\<close> (caught by the loop, which prompts
  again). The function returns the state after the placement and the entries not yet read.
\<close>

fun get_user_move :: "ttt \<Rightarrow> int option list \<Rightarrow> error + (ttt \<times> int option list)" where
  "get_user_move s [] = Inl EOFError"
| "get_user_move s (None # rest) = get_user_move s rest"
| "get_user_move s (Some user_move # rest) =
     (if user_move \<in> set (available_moves s)
      then (case apply_move s user_move of Inl e \<Rightarrow> Inl e | Inr s' \<Rightarrow> Inr (s', rest))
      else get_user_move s rest)"

text \<open>
  \<^verbatim>\<open>get_ai_move\<close>: \<^verbatim>\<open>random.choice(self.available_moves)\<close> returns the element at some
  position of the list and raises \<open>IndexError\<close> on an empty list; the raw random draw \<open>r\<close>
  is a parameter, reduced to a position of the list.
\<close>

definition get_ai_move :: "ttt \<Rightarrow> nat \<Rightarrow> error + ttt" where
  "get_ai_move s r =
     (if available_moves s = [] then Inl IndexError
      else apply_move s (available_moves s ! (r mod length (available_moves s))))"

text \<open>\<^verbatim>\<open>check_win\<close>: the two \<^verbatim>\<open>for i in range(3)\<close> loops with their early return, then the
  two diagonals, then the tie test on \<open>available_moves\<close>.\<close>

fun check_rows :: "string list list \<Rightarrow> nat list \<Rightarrow> string option" where
  "check_rows b [] = None"
| "check_rows b (i # rest) =
     (if b ! i ! 0 = b ! i ! 1 \<and> b ! i ! 1 = b ! i ! 2 then Some (b ! i ! 0)
      else check_rows b rest)"

fun check_columns :: "string list list \<Rightarrow> nat list \<Rightarrow> string option" where
  "check_columns b [] = None"
| "check_columns b (i # rest) =
     (if b ! 0 ! i = b ! 1 ! i \<and> b ! 1 ! i = b ! 2 ! i then Some (b ! 0 ! i)
      else check_columns b rest)"

definition check_win :: "ttt \<Rightarrow> string option" where
  "check_win s =
     (let b = board s in
      case check_rows b [0..<3] of
        Some w \<Rightarrow> Some w
      | None \<Rightarrow>
         (case check_columns b [0..<3] of
            Some w \<Rightarrow> Some w
          | None \<Rightarrow>
              if b ! 0 ! 0 = b ! 1 ! 1 \<and> b ! 1 ! 1 = b ! 2 ! 2 then Some (b ! 0 ! 0)
              else if b ! 0 ! 2 = b ! 1 ! 1 \<and> b ! 1 ! 1 = b ! 2 ! 0 then Some (b ! 0 ! 2)
              else if available_moves s = [] then Some TIE_RESULT
              else None))"

definition switch_player :: "ttt \<Rightarrow> ttt" where
  "switch_player s =
     s\<lparr>current_player := (if current_player s = PLAYER_X then PLAYER_O else PLAYER_X)\<rparr>"

text \<open>
  What the \<^verbatim>\<open>play\<close> loop reads from outside: the entries typed at the move prompt, the
  answers that \<^verbatim>\<open>get_yes_no_input\<close> returns (it loops until it has a valid yes or no, so
  each call is one boolean), and the raw draws of \<^verbatim>\<open>random\<close>, as a sequence \<open>rnd\<close> with
  the count of draws made so far.
\<close>

record ttt_io =
  entries :: "int option list"
  answers :: "bool list"
  drawn :: nat

datatype flow = Continue | Break

text \<open>\<^verbatim>\<open>if result:\<close> on an \<^verbatim>\<open>Optional[str]\<close>: \<^verbatim>\<open>None\<close> and the empty string are false.\<close>

definition truthy :: "string option \<Rightarrow> bool" where
  "truthy r = (case r of None \<Rightarrow> False | Some w \<Rightarrow> w \<noteq> [])"

text \<open>Lines 151-163 and 174-186: the game is decided; the rematch question either resets
  the game and continues the loop, or leaves it.\<close>

definition game_decided :: "ttt \<Rightarrow> ttt_io \<Rightarrow> error + (flow \<times> ttt \<times> ttt_io)" where
  "game_decided s io =
     (case answers io of
        [] \<Rightarrow> Inl EOFError
      | again # rest \<Rightarrow>
          if again then Inr (Continue, reset_game s, io\<lparr>answers := rest\<rparr>)
          else Inr (Break, s, io\<lparr>answers := rest\<rparr>))"

text \<open>One pass through the body of \<^verbatim>\<open>while not game_over\<close> (lines 144-189).\<close>

definition play_iter ::
    "(nat \<Rightarrow> nat) \<Rightarrow> bool \<Rightarrow> ttt \<Rightarrow> ttt_io \<Rightarrow> error + (flow \<times> ttt \<times> ttt_io)" where
  "play_iter rnd ai_mode s io =
     (case get_user_move s (entries io) of
        Inl e \<Rightarrow> Inl e
      | Inr (s1, rest) \<Rightarrow>
          let io1 = io\<lparr>entries := rest\<rparr> in
          if truthy (check_win s1) then game_decided s1 io1
          else
            let s2 = switch_player s1 in
            if ai_mode \<and> available_moves s2 \<noteq> [] then
              (case get_ai_move s2 (rnd (drawn io1)) of
                 Inl e \<Rightarrow> Inl e
               | Inr s3 \<Rightarrow>
                   let io3 = io1\<lparr>drawn := Suc (drawn io1)\<rparr> in
                   if truthy (check_win s3) then game_decided s3 io3
                   else Inr (Continue, switch_player s3, io3))
            else Inr (Continue, s2, io1))"

text \<open>
  The \<^verbatim>\<open>while not game_over\<close> loop. The flag is never set, so the loop ends only at a
  \<^verbatim>\<open>break\<close>. Every pass reads at least one entry, which is what makes the recursion
  terminate on a finite script of entries; a script that runs out ends in \<open>EOFError\<close>.
\<close>

function play_loop :: "(nat \<Rightarrow> nat) \<Rightarrow> bool \<Rightarrow> ttt \<Rightarrow> ttt_io \<Rightarrow> error + (ttt \<times> ttt_io)" where
  "play_loop rnd ai_mode s io =
     (case play_iter rnd ai_mode s io of
        Inl e \<Rightarrow> Inl e
      | Inr (Break, s', io') \<Rightarrow> Inr (s', io')
      | Inr (Continue, s', io') \<Rightarrow> play_loop rnd ai_mode s' io')"
  by pat_completeness auto
termination
proof -
  have shorter: "length rest < length es" if "get_user_move t es = Inr (t', rest)"
    for t es t' rest
    using that by (induction t es rule: get_user_move.induct) (auto split: if_splits sum.splits)
  have iter: "length (entries io') < length (entries io)"
    if "play_iter rnd ai_mode s io = Inr (f, s', io')" for rnd ai_mode s io f s' io'
    using that
    by (auto simp: play_iter_def game_decided_def Let_def
          split: sum.splits if_splits list.splits prod.splits dest: shorter)
  show ?thesis
    by (relation "measure (\<lambda>(rnd, ai_mode, s, io). length (entries io))") (auto dest: iter)
qed

declare play_loop.simps [simp del]

text \<open>\<^verbatim>\<open>play\<close>: the question for the AI mode, then the loop on the state the object is in.\<close>

definition ttt_play :: "(nat \<Rightarrow> nat) \<Rightarrow> ttt \<Rightarrow> ttt_io \<Rightarrow> error + (ttt \<times> ttt_io)" where
  "ttt_play rnd s io =
     (case answers io of
        [] \<Rightarrow> Inl EOFError
      | ai_mode # rest \<Rightarrow> play_loop rnd ai_mode s (io\<lparr>answers := rest\<rparr>))"

text \<open>\<^verbatim>\<open>__init__\<close>: the object has no fields before \<^verbatim>\<open>reset_game\<close> sets all three.\<close>

definition new_game :: ttt where
  "new_game = reset_game \<lparr>available_moves = [], current_player = [], board = []\<rparr>"


section \<open>The rock-paper-scissors engine (class RockPaperScissorsGame)\<close>

definition ROCK :: string where "ROCK = ''rock''"
definition PAPER :: string where "PAPER = ''paper''"
definition SCISSORS :: string where "SCISSORS = ''scissors''"


text \<open>The fields of the object. \<^verbatim>\<open>scores\<close> is a dictionary, kept as the list of its items
  in insertion order and read with \<open>map_of\<close>; \<^verbatim>\<open>valid_choices\<close> and
  \<^verbatim>\<open>menu_choices\<close> are set once in \<^verbatim>\<open>__init__\<close> and never written again, so they are
  constants here.\<close>

record rps =
  require_names :: bool
  two_player_mode :: bool
  has_names :: bool
  player1_name :: string
  player2_name :: string
  scores :: "(string \<times> int) list"

definition valid_choices :: "string \<rightharpoonup> string" where
  "valid_choices = map_of
     [(''1'', ROCK), (''rock'', ROCK), (''r'', ROCK),
      (''2'', PAPER), (''paper'', PAPER), (''p'', PAPER),
      (''3'', SCISSORS), (''scissors'', SCISSORS), (''s'', SCISSORS)]"

definition menu_choices :: "string list" where
  "menu_choices = [''menu'', ''main menu'']"

definition reset_settings :: "rps \<Rightarrow> rps" where
  "reset_settings s =
     s\<lparr>require_names := True, two_player_mode := False, has_names := False,
       player1_name := ''Player 1'', player2_name := ''The Bot''\<rparr>"

text \<open>\<^verbatim>\<open>__init__\<close>: \<^verbatim>\<open>reset_settings()\<close>, then the scores dictionary with both counts at 0.\<close>

definition initial_scores :: "(string \<times> int) list" where
  "initial_scores = [(''Player 1'', 0), (''Player 2'', 0)]"

definition new_rps :: rps where
  "new_rps =
     (reset_settings \<lparr>require_names = False, two_player_mode = False, has_names = False,
        player1_name = [], player2_name = [], scores = []\<rparr>)\<lparr>scores := initial_scores\<rparr>"

text \<open>The two assignments of the settings menu for option 1 (lines 370-371).\<close>

definition toggle_require_names :: "rps \<Rightarrow> rps" where
  "toggle_require_names s = s\<lparr>require_names := \<not> require_names s, has_names := False\<rparr>"

text \<open>The two assignments of the settings menu for option 2 (lines 374-375); the name of
  player 2 is computed from the flags after the toggle.\<close>

definition toggle_two_player_mode :: "rps \<Rightarrow> rps" where
  "toggle_two_player_mode s =
     (let s1 = s\<lparr>two_player_mode := \<not> two_player_mode s\<rparr>
      in s1\<lparr>player2_name :=
               (if two_player_mode s1 \<and> \<not> require_names s1 then ''Player 2'' else ''The Bot'')\<rparr>)"

text \<open>
  The \<^verbatim>\<open>if\<close>/\<^verbatim>\<open>elif\<close>/\<^verbatim>\<open>else\<close> of \<^verbatim>\<open>play_round\<close> (lines 313-322). The three branches print
  "It's a tie!", "<player 1> wins!" and "<player 2> wins!"; \<open>verdict\<close> names the branch
  taken.
\<close>

datatype verdict = Tie | Player1Wins | Player2Wins

definition round_verdict :: "string \<Rightarrow> string \<Rightarrow> verdict" where
  "round_verdict player1_choice player2_choice =
     (if player1_choice = player2_choice then Tie
      else if (player1_choice, player2_choice) \<in>
                set [(ROCK, SCISSORS), (SCISSORS, PAPER), (PAPER, ROCK)] then Player1Wins
      else Player2Wins)"

text \<open>\<^verbatim>\<open>self.scores[key] += 1\<close>, which raises \<open>KeyError\<close> on a key that is not in the
  dictionary.\<close>

definition add_win :: "rps \<Rightarrow> string \<Rightarrow> error + rps" where
  "add_win s key =
     (case map_of (scores s) key of
        None \<Rightarrow> Inl KeyError
      | Some v \<Rightarrow> Inr (s\<lparr>scores := AList.update key (v + 1) (scores s)\<rparr>))"

definition resolve_round :: "rps \<Rightarrow> string \<Rightarrow> string \<Rightarrow> error + rps" where
  "resolve_round s player1_choice player2_choice =
     (case round_verdict player1_choice player2_choice of
        Tie \<Rightarrow> Inr s
      | Player1Wins \<Rightarrow> add_win s ''Player 1''
      | Player2Wins \<Rightarrow> add_win s ''Player 2'')"

text \<open>
  The seven methods that prompt and call each other. Each takes the sequence of random
  draws \<open>rnd\<close>, the number \<open>d\<close> of nested calls still allowed (Python raises
  \<open>RecursionError\<close> beyond its limit; a menu that is shown again after invalid input is a
  nested call in the source), the object \<open>s\<close>, the lines \<open>stdin\<close> not yet read by
  \<^verbatim>\<open>input()\<close> and the number \<open>k\<close> of random draws made. The result is the returned value,
  the object, the lines left and the draws made. Text printed to the screen is not
  modelled, nor is the argument \<^verbatim>\<open>player_name\<close> of \<^verbatim>\<open>get_player_choice\<close>, which only
  appears in the prompt. The \<^verbatim>\<open>while True\<close> loop of \<^verbatim>\<open>get_player_choice\<close> is the
  recursion on the rest of the lines at the same depth.
\<close>

type_synonym 'a outcome = "error + ('a \<times> rps \<times> string list \<times> nat)"

function (sequential) main_menu :: "(nat \<Rightarrow> nat) \<Rightarrow> nat \<Rightarrow> rps \<Rightarrow> string list \<Rightarrow> nat \<Rightarrow> unit outcome"
  and get_player_names :: "(nat \<Rightarrow> nat) \<Rightarrow> nat \<Rightarrow> rps \<Rightarrow> string list \<Rightarrow> nat \<Rightarrow> bool outcome"
  and pre_game :: "(nat \<Rightarrow> nat) \<Rightarrow> nat \<Rightarrow> rps \<Rightarrow> string list \<Rightarrow> nat \<Rightarrow> unit outcome"
  and get_player_choice ::
    "(nat \<Rightarrow> nat) \<Rightarrow> nat \<Rightarrow> rps \<Rightarrow> string list \<Rightarrow> nat \<Rightarrow> string option outcome"
  and play_round :: "(nat \<Rightarrow> nat) \<Rightarrow> nat \<Rightarrow> rps \<Rightarrow> string list \<Rightarrow> nat \<Rightarrow> unit outcome"
  and after_game_menu :: "(nat \<Rightarrow> nat) \<Rightarrow> nat \<Rightarrow> rps \<Rightarrow> string list \<Rightarrow> nat \<Rightarrow> unit outcome"
  and settings_menu :: "(nat \<Rightarrow> nat) \<Rightarrow> nat \<Rightarrow> rps \<Rightarrow> string list \<Rightarrow> nat \<Rightarrow> unit outcome"
where
  "main_menu rnd 0 s stdin k = Inl RecursionError"
| "main_menu rnd (Suc d) s [] k = Inl EOFError"
| "main_menu rnd (Suc d) s (line # rest) k =
     (let choice = strip (lower line) in
      if choice \<in> set [''1'', ''new game'', ''n''] then pre_game rnd d s rest k
      else if choice \<in> set [''2'', ''settings'', ''s''] then settings_menu rnd d s rest k
      else if choice \<in> set ([''3'', ''back to main menu'', ''b''] @ menu_choices)
        then Inr ((), s, rest, k)
      else main_menu rnd d s rest k)"
| "get_player_names rnd 0 s stdin k = Inl RecursionError"
| "get_player_names rnd (Suc d) s [] k = Inl EOFError"
| "get_player_names rnd (Suc d) s (line1 # rest1) k =
     (let s1 = s\<lparr>player1_name := strip line1\<rparr> in
      if lower (player1_name s1) \<in> set menu_choices then
        (case main_menu rnd d s1 rest1 k of
           Inl e \<Rightarrow> Inl e
         | Inr (u, s', rest', k') \<Rightarrow> Inr (False, s', rest', k'))
      else if two_player_mode s1 then
        (case rest1 of
           [] \<Rightarrow> Inl EOFError
         | line2 # rest2 \<Rightarrow>
             let s2 = s1\<lparr>player2_name := strip line2\<rparr> in
             if lower (player2_name s2) \<in> set menu_choices then
               (case main_menu rnd d s2 rest2 k of
                  Inl e \<Rightarrow> Inl e
                | Inr (u, s', rest', k') \<Rightarrow> Inr (False, s', rest', k'))
             else
               (case rest2 of
                  [] \<Rightarrow> Inl EOFError
                | enter # rest3 \<Rightarrow> Inr (True, s2\<lparr>has_names := True\<rparr>, rest3, k)))
      else
        (case rest1 of
           [] \<Rightarrow> Inl EOFError
         | enter # rest3 \<Rightarrow> Inr (True, s1\<lparr>has_names := True\<rparr>, rest3, k)))"
| "pre_game rnd 0 s stdin k = Inl RecursionError"
| "pre_game rnd (Suc d) s stdin k =
     (if require_names s \<and> \<not> has_names s then
        (case get_player_names rnd d s stdin k of
           Inl e \<Rightarrow> Inl e
         | Inr (named, s', rest', k') \<Rightarrow>
             if \<not> named then Inr ((), s', rest', k') else play_round rnd d s' rest' k')
      else play_round rnd d s stdin k)"
| "get_player_choice rnd 0 s stdin k = Inl RecursionError"
| "get_player_choice rnd (Suc d) s [] k = Inl EOFError"
| "get_player_choice rnd (Suc d) s (line # rest) k =
     (let choice = strip (lower line) in
      case valid_choices choice of
        Some c \<Rightarrow> Inr (Some c, s, rest, k)
      | None \<Rightarrow>
          if choice \<in> set menu_choices then
            (case main_menu rnd d s rest k of
               Inl e \<Rightarrow> Inl e
             | Inr (u, s', rest', k') \<Rightarrow> Inr (None, s', rest', k'))
          else get_player_choice rnd (Suc d) s rest k)"
| "play_round rnd 0 s stdin k = Inl RecursionError"
| "play_round rnd (Suc d) s stdin k =
     (case get_player_choice rnd d s stdin k of
        Inl e \<Rightarrow> Inl e
      | Inr (None, s1, rest1, k1) \<Rightarrow> Inr ((), s1, rest1, k1)
      | Inr (Some player1_choice, s1, rest1, k1) \<Rightarrow>
          (case (if two_player_mode s1 then get_player_choice rnd d s1 rest1 k1
                 else Inr (Some ([ROCK, PAPER, SCISSORS] ! (rnd k1 mod 3)), s1, rest1, Suc k1)) of
             Inl e \<Rightarrow> Inl e
           | Inr (None, s2, rest2, k2) \<Rightarrow> Inr ((), s2, rest2, k2)
           | Inr (Some player2_choice, s2, rest2, k2) \<Rightarrow>
               (case resolve_round s2 player1_choice player2_choice of
                  Inl e \<Rightarrow> Inl e
                | Inr s3 \<Rightarrow>
                    (case rest2 of
                       [] \<Rightarrow> Inl EOFError
                     | enter # rest3 \<Rightarrow> after_game_menu rnd d s3 rest3 k2))))"
| "after_game_menu rnd 0 s stdin k = Inl RecursionError"
| "after_game_menu rnd (Suc d) s [] k = Inl EOFError"
| "after_game_menu rnd (Suc d) s (line # rest) k =
     (let choice = strip (lower line) in
      if choice \<in> set [''1'', ''play again'', ''p''] then play_round rnd d s rest k
      else if choice \<in> set [''2'', ''rock-paper-scissors menu'', ''r''] then main_menu rnd d s rest k
      else if choice \<in> set ([''3'', ''back to main menu'', ''b''] @ menu_choices)
        then Inr ((), s, rest, k)
      else after_game_menu rnd d s rest k)"
| "settings_menu rnd 0 s stdin k = Inl RecursionError"
| "settings_menu rnd (Suc d) s [] k = Inl EOFError"
| "settings_menu rnd (Suc d) s (line # rest) k =
     (let choice = strip (lower line) in
      if choice \<in> set [''1'', ''require names'', ''n''] then
        settings_menu rnd d (toggle_require_names s) rest k
      else if choice \<in> set [''2'', ''two player mode'', ''t''] then
        settings_menu rnd d (toggle_two_player_mode s) rest k
      else if choice \<in> set [''3'', ''reset to default settings'', ''d''] then
        settings_menu rnd d (reset_settings s) rest k
      else if choice \<in> set [''4'', ''back to rock-paper-scissors menu'', ''b''] then
        main_menu rnd d s rest k
      else settings_menu rnd d s rest k)"
  by pat_completeness auto
termination
proof (relation "inv_image (less_than <*lex*> less_than)
        (\<lambda>x. case case_sum (case_sum id (case_sum id id))
                        (case_sum (case_sum id id) (case_sum id id)) x of
               (rnd, d, s, stdin, k) \<Rightarrow> (d, length stdin))")
  show "wf (inv_image (less_than <*lex*> less_than)
        (\<lambda>x. case case_sum (case_sum id (case_sum id id))
                        (case_sum (case_sum id id) (case_sum id id)) x of
               (rnd, d, s, stdin, k) \<Rightarrow> (d, length stdin)))"
    by (intro wf_inv_image wf_lex_prod wf_less_than)
qed auto



section \<open>Notions used to state the properties\<close>

subsection \<open>Tic-tac-toe\<close>

text \<open>The board has three rows of three cells.\<close>

definition board_ok :: "string list list \<Rightarrow> bool" where
  "board_ok b = (length b = 3 \<and> list_all (\<lambda>row. length row = 3) b)"

text \<open>The cell that carries position label \<open>n\<close>: row \<open>(n - 1) div 3\<close>, column
  \<open>(n - 1) mod 3\<close>.\<close>

definition cell_of :: "string list list \<Rightarrow> int \<Rightarrow> string" where
  "cell_of b n = b ! nat ((n - 1) div 3) ! nat ((n - 1) mod 3)"

definition is_mark :: "string \<Rightarrow> bool" where
  "is_mark c = (c = PLAYER_X \<or> c = PLAYER_O)"

text \<open>Every position that is still available shows its own label, every other one a mark.\<close>

definition cells_ok :: "int list \<Rightarrow> string list list \<Rightarrow> bool" where
  "cells_ok avail b =
     list_all (\<lambda>n. if n \<in> set avail then cell_of b n = str n else is_mark (cell_of b n)) [1..9]"

definition state_ok :: "ttt \<Rightarrow> bool" where
  "state_ok s =
     (board_ok (board s) \<and> distinct (available_moves s) \<and>
      list_all (\<lambda>n. 1 \<le> n \<and> n \<le> 9) (available_moves s) \<and>
      cells_ok (available_moves s) (board s) \<and>
      is_mark (current_player s))"

text \<open>An entry at the move prompt that is rejected: not an integer, or not available.\<close>

definition invalid_entry :: "ttt \<Rightarrow> int option \<Rightarrow> bool" where
  "invalid_entry s e = (case e of None \<Rightarrow> True | Some m \<Rightarrow> m \<notin> set (available_moves s))"

text \<open>The states that the operations of the engine produce from a fresh board, in any
  order: placements by the user and by the automated player, and changes of turn.\<close>

inductive reachable :: "ttt \<Rightarrow> bool" where
  fresh: "reachable (reset_game s)"
| user_move: "reachable s \<Longrightarrow> get_user_move s es = Inr (s', rest) \<Longrightarrow> reachable s'"
| ai_move: "reachable s \<Longrightarrow> get_ai_move s r = Inr s' \<Longrightarrow> reachable s'"
| switch: "reachable s \<Longrightarrow> reachable (switch_player s)"

text \<open>The eight lines in the order the specification gives for \<open>evaluate\<close>: rows, columns,
  diagonals. \<open>evaluate_spec\<close> follows the words of the specification: the first complete
  line decides, else a tie when no move is left, else undecided.\<close>

definition square :: "string list list \<Rightarrow> nat \<times> nat \<Rightarrow> string" where
  "square b p = b ! fst p ! snd p"

type_synonym line = "(nat \<times> nat) \<times> (nat \<times> nat) \<times> (nat \<times> nat)"

definition win_lines :: "line list" where
  "win_lines =
     [((0, 0), (0, 1), (0, 2)), ((1, 0), (1, 1), (1, 2)), ((2, 0), (2, 1), (2, 2)),
      ((0, 0), (1, 0), (2, 0)), ((0, 1), (1, 1), (2, 1)), ((0, 2), (1, 2), (2, 2)),
      ((0, 0), (1, 1), (2, 2)), ((0, 2), (1, 1), (2, 0))]"

definition complete :: "string list list \<Rightarrow> line \<Rightarrow> bool" where
  "complete b l = (case l of (p, q, r) \<Rightarrow> square b p = square b q \<and> square b q = square b r)"

definition filled :: "string list list \<Rightarrow> line \<Rightarrow> string \<Rightarrow> bool" where
  "filled b l m = (case l of (p, q, r) \<Rightarrow> square b p = m \<and> square b q = m \<and> square b r = m)"

definition evaluate_spec :: "ttt \<Rightarrow> string option" where
  "evaluate_spec s =
     (case find (complete (board s)) win_lines of
        Some (p, q, r) \<Rightarrow> Some (square (board s) p)
      | None \<Rightarrow> if available_moves s = [] then Some TIE_RESULT else None)"

text \<open>The number of marks on the board, and whose turn it is by that count: X when it is
  even, O when it is odd.\<close>

definition placed :: "ttt \<Rightarrow> nat" where
  "placed s = 9 - length (available_moves s)"

definition turn_ok :: "ttt \<Rightarrow> bool" where
  "turn_ok s = (current_player s = (if even (placed s) then PLAYER_X else PLAYER_O))"

text \<open>The states at the head of the \<^verbatim>\<open>play\<close> loop, in a session that starts on a fresh
  board.\<close>

inductive loop_head :: "(nat \<Rightarrow> nat) \<Rightarrow> bool \<Rightarrow> ttt \<Rightarrow> bool" for rnd ai_mode where
  start: "loop_head rnd ai_mode (reset_game s)"
| pass: "loop_head rnd ai_mode s \<Longrightarrow> play_iter rnd ai_mode s io = Inr (Continue, s', io') \<Longrightarrow>
         loop_head rnd ai_mode s'"

text \<open>Three boards for examples: X has completed the top row; the board one placement
  before that; all nine cells are taken and no line is complete.\<close>

definition won_by_x :: ttt where
  "won_by_x =
     \<lparr>available_moves = [6, 7, 8, 9], current_player = ''X'',
      board = [[''X'', ''X'', ''X''], [''O'', ''O'', ''6''], [''7'', ''8'', ''9'']]\<rparr>"

definition x_about_to_win :: ttt where
  "x_about_to_win =
     \<lparr>available_moves = [3, 6, 7, 8, 9], current_player = ''X'',
      board = [[''X'', ''X'', ''3''], [''O'', ''O'', ''6''], [''7'', ''8'', ''9'']]\<rparr>"

definition drawn_game :: ttt where
  "drawn_game =
     \<lparr>available_moves = [], current_player = ''X'',
      board = [[''X'', ''O'', ''X''], [''X'', ''O'', ''O''], [''O'', ''X'', ''X'']]\<rparr>"

subsection \<open>Rock-paper-scissors\<close>


text \<open>The scores dictionary has its two keys; both counts are at least 0; no count of the
  second object is below that of the first.\<close>

definition score_keys :: "string list" where
  "score_keys = [''Player 1'', ''Player 2'']"

definition has_scores :: "rps \<Rightarrow> bool" where
  "has_scores s = list_all (\<lambda>key. map_of (scores s) key \<noteq> None) score_keys"


definition scores_grow :: "rps \<Rightarrow> rps \<Rightarrow> bool" where
  "scores_grow s s' =
     list_all (\<lambda>key. case (map_of (scores s) key, map_of (scores s') key) of
                       (Some a, Some b) \<Rightarrow> a \<le> b
                     | _ \<Rightarrow> False) score_keys"



section \<open>Tic-tac-toe: placement, evaluation and turns\<close>

lemma board_ok_nth: "board_ok b \<Longrightarrow> i < 3 \<Longrightarrow> length (b ! i) = 3"
  by (simp add: board_ok_def list_all_length)

lemma pos_bounds:
  fixes n :: int
  assumes "1 \<le> n" "n \<le> 9"
  shows "(n - 1) div 3 \<ge> 0" "(n - 1) div 3 < 3" "(n - 1) mod 3 \<ge> 0" "(n - 1) mod 3 < 3"
        "nat ((n - 1) div 3) < 3" "nat ((n - 1) mod 3) < 3"
proof -
  show a: "(n - 1) div 3 \<ge> 0" using assms by simp
  show b: "(n - 1) div 3 < 3" using assms by (simp add: div_less_iff_less_mult)
  show c: "(n - 1) mod 3 \<ge> 0" by simp
  show d: "(n - 1) mod 3 < 3" by simp
  show "nat ((n - 1) div 3) < 3" using a b by simp
  show "nat ((n - 1) mod 3) < 3" using c d by simp
qed

lemma pos_inj:
  fixes n n' :: int
  assumes "(n - 1) div 3 = (n' - 1) div 3" "(n - 1) mod 3 = (n' - 1) mod 3"
  shows "n = n'"
proof -
  have "n - 1 = 3 * ((n - 1) div 3) + (n - 1) mod 3" by simp
  also have "\<dots> = 3 * ((n' - 1) div 3) + (n' - 1) mod 3" using assms by simp
  also have "\<dots> = n' - 1" by simp
  finally show ?thesis by simp
qed

lemma py_index_in_range:
  "0 \<le> i \<Longrightarrow> i < int (length xs) \<Longrightarrow> py_index xs i = Inr (nat i)"
  by (simp add: py_index_def)

lemma apply_move_ok:
  assumes "board_ok (board s)" "1 \<le> n" "n \<le> 9"
  shows "apply_move s n =
           Inr (s\<lparr>board := (board s)[nat ((n - 1) div 3) :=
                               (board s ! nat ((n - 1) div 3))[nat ((n - 1) mod 3) := current_player s]],
                  available_moves := remove1 n (available_moves s)\<rparr>)"
proof -
  have len: "length (board s) = 3" using assms(1) by (simp add: board_ok_def)
  have r: "py_index (board s) ((n - 1) div 3) = Inr (nat ((n - 1) div 3))"
    using pos_bounds(1,2)[OF assms(2,3)] len by (intro py_index_in_range) simp_all
  have "length (board s ! nat ((n - 1) div 3)) = 3"
    using board_ok_nth[OF assms(1)] pos_bounds(5)[OF assms(2,3)] by simp
  then have c: "py_index (board s ! nat ((n - 1) div 3)) ((n - 1) mod 3) = Inr (nat ((n - 1) mod 3))"
    by (intro py_index_in_range) simp_all
  show ?thesis by (simp only: apply_move_def divmod_def prod.case r c sum.case)
qed

lemma nth_update2:
  assumes "r < length b" "c < length (b ! r)"
  shows "b[r := (b ! r)[c := m]] ! r' ! c' = (if r' = r \<and> c' = c then m else b ! r' ! c')"
proof (cases "r' = r")
  case True
  then show ?thesis using assms by (cases "c' = c") simp_all
next
  case False
  then show ?thesis by simp
qed

lemma cell_of_update:
  assumes "board_ok b" "1 \<le> n" "n \<le> 9" "1 \<le> n'" "n' \<le> 9"
  shows "cell_of (b[nat ((n - 1) div 3) := (b ! nat ((n - 1) div 3))[nat ((n - 1) mod 3) := m]]) n' =
           (if n' = n then m else cell_of b n')"
proof -
  have r: "nat ((n - 1) div 3) < length b"
    using pos_bounds[OF assms(2,3)] assms(1) by (simp add: board_ok_def)
  have c: "nat ((n - 1) mod 3) < length (b ! nat ((n - 1) div 3))"
    using board_ok_nth[OF assms(1)] pos_bounds[OF assms(2,3)] by simp
  have eq: "(nat ((n' - 1) div 3) = nat ((n - 1) div 3) \<and> nat ((n' - 1) mod 3) = nat ((n - 1) mod 3))
              = (n' = n)"
  proof
    assume a: "nat ((n' - 1) div 3) = nat ((n - 1) div 3) \<and> nat ((n' - 1) mod 3) = nat ((n - 1) mod 3)"
    have "(n' - 1) div 3 = (n - 1) div 3"
      using a pos_bounds(1)[OF assms(2,3)] pos_bounds(1)[OF assms(4,5)] by (simp add: eq_nat_nat_iff)
    moreover have "(n' - 1) mod 3 = (n - 1) mod 3"
      using a pos_bounds(3)[OF assms(2,3)] pos_bounds(3)[OF assms(4,5)] by (simp add: eq_nat_nat_iff)
    ultimately show "n' = n" by (rule pos_inj)
  next
    assume "n' = n"
    then show "nat ((n' - 1) div 3) = nat ((n - 1) div 3) \<and> nat ((n' - 1) mod 3) = nat ((n - 1) mod 3)"
      by simp
  qed
  show ?thesis
    unfolding cell_of_def nth_update2[OF r c] eq ..
qed

lemma board_ok_update:
  assumes "board_ok b"
  shows "board_ok (b[r := (b ! r)[c := m]])"
proof -
  have "length (b[r := (b ! r)[c := m]] ! i) = 3" if "i < 3" for i
  proof (cases "i = r")
    case True
    then show ?thesis using assms that by (simp add: board_ok_def list_all_length)
  next
    case False
    then show ?thesis using assms that by (simp add: board_ok_def list_all_length)
  qed
  then show ?thesis using assms by (simp add: board_ok_def list_all_length)
qed

lemma str_digit:
  assumes "1 \<le> n" "n \<le> 9"
  shows "str n = [''0123456789'' ! nat n]"
  using assms by (simp add: str_def digits_of.simps digit_char_def)

lemma str_not_mark:
  assumes "1 \<le> n" "n \<le> 9"
  shows "\<not> is_mark (str n)"
proof -
  have "nat n < length ''0123456789''" using assms by simp
  then have "''0123456789'' ! nat n \<in> set ''0123456789''" by (rule nth_mem)
  then show ?thesis
    unfolding str_digit[OF assms] by (auto simp: is_mark_def PLAYER_X_def PLAYER_O_def)
qed

lemma str_inj:
  assumes "1 \<le> n" "n \<le> 9" "1 \<le> n'" "n' \<le> 9" "str n = str n'"
  shows "n = n'"
proof -
  have d: "distinct ''0123456789''" by simp
  have "''0123456789'' ! nat n = ''0123456789'' ! nat n'"
    using assms(5) unfolding str_digit[OF assms(1,2)] str_digit[OF assms(3,4)] by simp
  moreover have "nat n < length ''0123456789''" "nat n' < length ''0123456789''"
    using assms by simp_all
  ultimately have "nat n = nat n'" using d nth_eq_iff_index_eq by blast
  then show ?thesis using assms by simp
qed

lemma state_ok_apply_move:
  assumes ok: "state_ok s" and n: "n \<in> set (available_moves s)"
  shows "\<exists>s'. apply_move s n = Inr s' \<and> state_ok s'"
proof -
  let ?b = "(board s)[nat ((n - 1) div 3) :=
              (board s ! nat ((n - 1) div 3))[nat ((n - 1) mod 3) := current_player s]]"
  let ?s = "s\<lparr>board := ?b, available_moves := remove1 n (available_moves s)\<rparr>"
  have bok: "board_ok (board s)" and dist: "distinct (available_moves s)"
    and rng: "\<forall>m \<in> set (available_moves s). 1 \<le> m \<and> m \<le> 9"
    and cells: "\<forall>m \<in> {1..9}. if m \<in> set (available_moves s) then cell_of (board s) m = str m
                   else is_mark (cell_of (board s) m)"
    and cur: "is_mark (current_player s)"
    using ok by (simp_all add: state_ok_def cells_ok_def list_all_iff)
  have n19: "1 \<le> n" "n \<le> 9" using rng n by auto
  have eq: "apply_move s n = Inr ?s" by (rule apply_move_ok[OF bok n19])
  have rem: "set (remove1 n (available_moves s)) = set (available_moves s) - {n}"
    using dist by simp
  have c': "if m \<in> set (remove1 n (available_moves s)) then cell_of ?b m = str m
            else is_mark (cell_of ?b m)" if m: "m \<in> {1..9}" for m
  proof -
    have m19: "1 \<le> m" "m \<le> 9" using m by auto
    have upd: "cell_of ?b m = (if m = n then current_player s else cell_of (board s) m)"
      by (rule cell_of_update[OF bok n19 m19])
    show ?thesis
    proof (cases "m = n")
      case True
      then show ?thesis using upd cur rem by simp
    next
      case False
      then show ?thesis using upd cells m rem by auto
    qed
  qed
  have "state_ok ?s"
    unfolding state_ok_def cells_ok_def
    using board_ok_update[OF bok] dist rng cur c' rem
    by (simp add: list_all_iff)
  then show ?thesis using eq by blast
qed

lemma create_board_eq:
  "create_board = [[''1'', ''2'', ''3''], [''4'', ''5'', ''6''], [''7'', ''8'', ''9'']]"
  by (simp add: create_board_def str_def digits_of.simps digit_char_def upto.simps)

lemma new_game_eq:
  "new_game = \<lparr>available_moves = [1, 2, 3, 4, 5, 6, 7, 8, 9], current_player = ''X'',
                board = [[''1'', ''2'', ''3''], [''4'', ''5'', ''6''], [''7'', ''8'', ''9'']]\<rparr>"
  by (simp add: new_game_def reset_game_def create_board_eq PLAYER_X_def upto.simps)

lemma state_ok_reset: "state_ok (reset_game s)"
  by (simp add: state_ok_def cells_ok_def reset_game_def create_board_eq board_ok_def cell_of_def
      is_mark_def PLAYER_X_def upto.simps str_def digits_of.simps digit_char_def)

lemma state_ok_switch: "state_ok s \<Longrightarrow> state_ok (switch_player s)"
  by (simp add: state_ok_def switch_player_def is_mark_def)

lemma get_user_move_result:
  "get_user_move s es = Inr (s', rest) \<Longrightarrow>
     \<exists>n \<in> set (available_moves s). apply_move s n = Inr s'"
  by (induction s es rule: get_user_move.induct) (auto split: if_splits sum.splits)

lemma get_ai_move_result:
  "get_ai_move s r = Inr s' \<Longrightarrow> \<exists>n \<in> set (available_moves s). apply_move s n = Inr s'"
  by (auto simp: get_ai_move_def split: if_splits)

lemma reachable_state_ok: "reachable s \<Longrightarrow> state_ok s"
proof (induction rule: reachable.induct)
  case (fresh s)
  show ?case by (rule state_ok_reset)
next
  case (user_move s es s' rest)
  then show ?case using get_user_move_result state_ok_apply_move by fastforce
next
  case (ai_move s r s')
  then show ?case using get_ai_move_result state_ok_apply_move by fastforce
next
  case (switch s)
  then show ?case by (simp add: state_ok_switch)
qed

lemma skip_invalid:
  "list_all (invalid_entry s) bad \<Longrightarrow> get_user_move s (bad @ later) = get_user_move s later"
proof (induction bad)
  case Nil
  show ?case by simp
next
  case (Cons e bad)
  then show ?case by (cases e) (simp_all add: invalid_entry_def)
qed

text \<open>
  Claim C3. In \<^verbatim>\<open>get_user_move\<close>, on a board of three rows of three cells whose list of
  available moves has no duplicates, entries that are not integers or not available are
  passed over with the state as it was, and the first available position \<open>n\<close> (with
  \<open>1 \<le> n \<le> 9\<close>) is accepted: the mark of the current player is written into row
  \<open>(n - 1) div 3\<close>, column \<open>(n - 1) mod 3\<close>, no other cell changes, \<open>n\<close> leaves the
  available moves, whose number goes down by exactly one, and the current player is the
  same. Entries that are all rejected place nothing: the prompt is repeated until the input
  ends.
\<close>

theorem get_user_move_places_mark:
  assumes "board_ok (board s)" and "distinct (available_moves s)"
    and "n \<in> set (available_moves s)" and "1 \<le> n" and "n \<le> 9"
    and "list_all (invalid_entry s) bad"
  shows "(\<exists>s'. get_user_move s (bad @ Some n # rest) = Inr (s', rest) \<and>
            board s' ! nat ((n - 1) div 3) ! nat ((n - 1) mod 3) = current_player s \<and>
            (\<forall>i<3. \<forall>j<3. (i, j) \<noteq> (nat ((n - 1) div 3), nat ((n - 1) mod 3)) \<longrightarrow>
               board s' ! i ! j = board s ! i ! j) \<and>
            board_ok (board s') \<and>
            n \<notin> set (available_moves s') \<and>
            set (available_moves s') = set (available_moves s) - {n} \<and>
            length (available_moves s') + 1 = length (available_moves s) \<and>
            current_player s' = current_player s) \<and>
         (\<forall>later. get_user_move s (bad @ later) = get_user_move s later) \<and>
         get_user_move s bad = Inl EOFError"
proof -
  let ?r = "nat ((n - 1) div 3)" and ?c = "nat ((n - 1) mod 3)"
  let ?s = "s\<lparr>board := (board s)[?r := (board s ! ?r)[?c := current_player s]],
              available_moves := remove1 n (available_moves s)\<rparr>"
  have r: "?r < length (board s)"
    using pos_bounds(5)[OF assms(4,5)] assms(1) by (simp add: board_ok_def)
  have c: "?c < length (board s ! ?r)"
    using board_ok_nth[OF assms(1)] pos_bounds(5,6)[OF assms(4,5)] by simp
  have skip: "get_user_move s (bad @ later) = get_user_move s later" for later
    by (rule skip_invalid[OF assms(6)])
  have "get_user_move s (Some n # rest) = Inr (?s, rest)"
    using assms(3) apply_move_ok[OF assms(1,4,5)] by simp
  then have run: "get_user_move s (bad @ Some n # rest) = Inr (?s, rest)"
    using skip by simp
  have written: "board ?s ! ?r ! ?c = current_player s"
    using nth_update2[OF r c, of "current_player s" ?r ?c] by simp
  have others: "\<forall>i<3. \<forall>j<3. (i, j) \<noteq> (?r, ?c) \<longrightarrow> board ?s ! i ! j = board s ! i ! j"
    using nth_update2[OF r c, of "current_player s"] by simp
  have shape: "board_ok (board ?s)"
    using board_ok_update[OF assms(1)] by simp
  have gone: "n \<notin> set (available_moves ?s)"
    and rest_same: "set (available_moves ?s) = set (available_moves s) - {n}"
    using assms(2) by simp_all
  have size: "length (available_moves ?s) + 1 = length (available_moves s)"
    using assms(3) by (simp add: length_remove1) (cases "available_moves s"; simp)
  have player: "current_player ?s = current_player s" by simp
  have eof: "get_user_move s bad = Inl EOFError"
    using skip[of "[]"] by simp
  from run written others shape gone rest_same size player skip eof show ?thesis
    by blast
qed

text \<open>On a new game the entries "not a number", 12, 5, 3: the first two are rejected, 5 is
  placed in the centre, 3 is left unread.\<close>

theorem get_user_move_places_mark_witness:
  "\<exists>s'. get_user_move new_game [None, Some 12, Some 5, Some 3] = Inr (s', [Some 3]) \<and>
        board s' = [[''1'', ''2'', ''3''], [''4'', ''X'', ''6''], [''7'', ''8'', ''9'']] \<and>
        available_moves s' = [1, 2, 3, 4, 6, 7, 8, 9] \<and>
        length (available_moves s') + 1 = length (available_moves new_game) \<and>
        get_user_move new_game [None, Some 12] = Inl EOFError"
proof -
  have h1: "board_ok (board new_game)" by (simp add: new_game_eq board_ok_def)
  have h2: "distinct (available_moves new_game)" by (simp add: new_game_eq)
  have h3: "(5::int) \<in> set (available_moves new_game)" by (simp add: new_game_eq)
  have h4: "list_all (invalid_entry new_game) [None, Some 12]"
    by (simp add: new_game_eq invalid_entry_def)
  from get_user_move_places_mark[OF h1 h2 h3 _ _ h4, of "[Some 3]"]
  obtain s' where run: "get_user_move new_game [None, Some 12, Some 5, Some 3] = Inr (s', [Some 3])"
    and size: "length (available_moves s') + 1 = length (available_moves new_game)"
    and eof: "get_user_move new_game [None, Some 12] = Inl EOFError"
    by auto
  have "get_user_move new_game [None, Some 12, Some 5, Some 3] =
          Inr (\<lparr>available_moves = [1, 2, 3, 4, 6, 7, 8, 9], current_player = ''X'',
           board = [[''1'', ''2'', ''3''], [''4'', ''X'', ''6''], [''7'', ''8'', ''9'']]\<rparr>, [Some 3])"
    by (simp add: new_game_eq apply_move_def divmod_def py_index_def)
  with run have "board s' = [[''1'', ''2'', ''3''], [''4'', ''X'', ''6''], [''7'', ''8'', ''9'']]"
    and "available_moves s' = [1, 2, 3, 4, 6, 7, 8, 9]"
    by auto
  with run size eof show ?thesis by blast
qed

lemma check_rows_find:
  "check_rows b is =
     map_option (\<lambda>i. b ! i ! 0) (find (\<lambda>i. complete b ((i, 0), (i, 1), (i, 2))) is)"
  by (induction "is") (simp_all add: complete_def square_def)

lemma check_columns_find:
  "check_columns b is =
     map_option (\<lambda>i. b ! 0 ! i) (find (\<lambda>i. complete b ((0, i), (1, i), (2, i))) is)"
  by (induction "is") (simp_all add: complete_def square_def)

lemma find_map_line:
  "find P (map f xs) = map_option f (find (\<lambda>x. P (f x)) xs)"
  by (induction xs) simp_all

lemma find_app:
  "find P (xs @ ys) = (case find P xs of Some x \<Rightarrow> Some x | None \<Rightarrow> find P ys)"
  by (induction xs) simp_all

lemma upt_3: "[0..<3] = [0, 1, 2]"
  by code_simp

lemma win_lines_split:
  "win_lines =
     map (\<lambda>i. ((i, 0), (i, 1), (i, 2))) [0..<3] @
     map (\<lambda>i. ((0, i), (1, i), (2, i))) [0..<3] @
     [((0, 0), (1, 1), (2, 2)), ((0, 2), (1, 1), (2, 0))]"
  by (simp add: win_lines_def upt_3)

lemma check_win_evaluate_spec: "check_win s = evaluate_spec s"
proof -
  let ?b = "board s"
  let ?rows = "find (\<lambda>i. complete ?b ((i, 0), (i, 1), (i, 2))) [0..<3]"
  let ?cols = "find (\<lambda>i. complete ?b ((0, i), (1, i), (2, i))) [0..<3]"
  let ?diags = "find (complete ?b) [((0, 0), (1, 1), (2, 2)), ((0, 2), (1, 1), (2, 0))]"
  have f: "find (complete ?b) win_lines =
             (case ?rows of Some i \<Rightarrow> Some ((i, 0), (i, 1), (i, 2))
              | None \<Rightarrow> (case ?cols of Some i \<Rightarrow> Some ((0, i), (1, i), (2, i))
                         | None \<Rightarrow> ?diags))"
    unfolding win_lines_split find_app find_map_line
    by (simp split: option.splits)
  show ?thesis
  proof (cases ?rows)
    case (Some i)
    then show ?thesis
      unfolding check_win_def evaluate_spec_def f check_rows_find Let_def
      by (simp add: square_def)
  next
    case None
    note rows = this
    show ?thesis
    proof (cases ?cols)
      case (Some i)
      then show ?thesis
        unfolding check_win_def evaluate_spec_def f check_rows_find check_columns_find Let_def
        using rows by (simp add: square_def)
    next
      case None
      have d: "?diags =
                 (if ?b ! 0 ! 0 = ?b ! 1 ! 1 \<and> ?b ! 1 ! 1 = ?b ! 2 ! 2
                  then Some ((0, 0), (1, 1), (2, 2))
                  else if ?b ! 0 ! 2 = ?b ! 1 ! 1 \<and> ?b ! 1 ! 1 = ?b ! 2 ! 0
                  then Some ((0, 2), (1, 1), (2, 0)) else None)"
        by (simp add: complete_def square_def)
      show ?thesis
        unfolding check_win_def evaluate_spec_def f check_rows_find check_columns_find Let_def
          rows None d
        by (simp add: square_def)
    qed
  qed
qed

lemma find_only:
  "l \<in> set xs \<Longrightarrow> P l \<Longrightarrow> (\<forall>l' \<in> set xs. l' \<noteq> l \<longrightarrow> \<not> P l') \<Longrightarrow> find P xs = Some l"
  by (induction xs) auto

lemma line_of_marks:
  assumes ok: "cells_ok avail b" and n: "1 \<le> n" "n \<le> 9" and n': "1 \<le> n'" "n' \<le> 9"
    and ne: "n \<noteq> n'" and eq: "cell_of b n = cell_of b n'"
  shows "is_mark (cell_of b n)"
proof (rule ccontr)
  assume nm: "\<not> is_mark (cell_of b n)"
  have c: "\<forall>m \<in> {1..9}. if m \<in> set avail then cell_of b m = str m else is_mark (cell_of b m)"
    using ok by (simp add: cells_ok_def list_all_iff)
  have 1: "cell_of b n = str n" using c n nm by (auto split: if_splits)
  have "\<not> is_mark (cell_of b n')" using nm eq by simp
  then have 2: "cell_of b n' = str n'" using c n' by (auto split: if_splits)
  from 1 2 eq have "str n = str n'" by simp
  then show False using str_inj[OF n n'] ne by simp
qed

lemma complete_is_mark:
  assumes ok: "cells_ok avail b" and l: "l \<in> set win_lines" and c: "complete b l"
  shows "is_mark (square b (fst l))"
proof -
  have cell: "cell_of b 1 = b ! 0 ! 0" "cell_of b 2 = b ! 0 ! 1" "cell_of b 3 = b ! 0 ! 2"
    "cell_of b 4 = b ! 1 ! 0" "cell_of b 5 = b ! 1 ! 1" "cell_of b 6 = b ! 1 ! 2"
    "cell_of b 7 = b ! 2 ! 0" "cell_of b 8 = b ! 2 ! 1" "cell_of b 9 = b ! 2 ! 2"
    by (simp_all add: cell_of_def)
  note m = line_of_marks[OF ok]
  from l consider
      "l = ((0, 0), (0, 1), (0, 2))" | "l = ((1, 0), (1, 1), (1, 2))"
    | "l = ((2, 0), (2, 1), (2, 2))" | "l = ((0, 0), (1, 0), (2, 0))"
    | "l = ((0, 1), (1, 1), (2, 1))" | "l = ((0, 2), (1, 2), (2, 2))"
    | "l = ((0, 0), (1, 1), (2, 2))" | "l = ((0, 2), (1, 1), (2, 0))"
    by (auto simp: win_lines_def)
  then show ?thesis
  proof cases
    case 1 then show ?thesis using c m[of 1 2] by (simp add: complete_def square_def cell)
  next
    case 2 then show ?thesis using c m[of 4 5] by (simp add: complete_def square_def cell)
  next
    case 3 then show ?thesis using c m[of 7 8] by (simp add: complete_def square_def cell)
  next
    case 4 then show ?thesis using c m[of 1 4] by (simp add: complete_def square_def cell)
  next
    case 5 then show ?thesis using c m[of 2 5] by (simp add: complete_def square_def cell)
  next
    case 6 then show ?thesis using c m[of 3 6] by (simp add: complete_def square_def cell)
  next
    case 7 then show ?thesis using c m[of 1 5] by (simp add: complete_def square_def cell)
  next
    case 8 then show ?thesis using c m[of 3 5] by (simp add: complete_def square_def cell)
  qed
qed

lemma state_ok_no_moves:
  assumes "state_ok s" and "list_all (\<lambda>n. is_mark (cell_of (board s) n)) [1..9]"
  shows "available_moves s = []"
proof (rule ccontr)
  assume "available_moves s \<noteq> []"
  then obtain m where m: "m \<in> set (available_moves s)"
    by (cases "available_moves s") auto
  have rng: "1 \<le> m" "m \<le> 9" using assms(1) m by (auto simp: state_ok_def list_all_iff)
  have "cell_of (board s) m = str m"
    using assms(1) m rng by (auto simp: state_ok_def cells_ok_def list_all_iff)
  moreover have "is_mark (cell_of (board s) m)"
    using assms(2) rng by (auto simp: list_all_iff)
  ultimately show False using str_not_mark[OF rng] by simp
qed

lemma check_win_cases:
  "(\<exists>l \<in> set win_lines. complete (board s) l \<and> check_win s = Some (square (board s) (fst l))) \<or>
   ((\<forall>l \<in> set win_lines. \<not> complete (board s) l) \<and>
    check_win s = (if available_moves s = [] then Some TIE_RESULT else None))"
proof (cases "find (complete (board s)) win_lines")
  case None
  then have "\<forall>l \<in> set win_lines. \<not> complete (board s) l"
    by (auto simp: find_None_iff)
  then show ?thesis
    using None by (simp add: check_win_evaluate_spec evaluate_spec_def)
next
  case (Some l)
  then have "l \<in> set win_lines" "complete (board s) l"
    by (auto simp: find_Some_iff)
  then show ?thesis
    using Some by (auto simp: check_win_evaluate_spec evaluate_spec_def split: prod.splits)
qed

text \<open>
  Claim C1. \<^verbatim>\<open>check_win\<close> is the evaluation of the specification: the first line with
  three equal cells, in the order rows, columns, diagonals, gives the result; with no such
  line the result is the tie when no move is available and undecided otherwise. For each of
  the eight lines, a board where one mark fills the line and no other line is complete
  evaluates to that mark. In a well-formed state a line of three equal marks makes the
  result a mark, and a board with all nine cells taken and no complete line is a tie.
\<close>

theorem check_win_evaluates:
  "check_win s = evaluate_spec s \<and>
   (\<forall>l \<in> set win_lines. \<forall>m.
      filled (board s) l m \<and> (\<forall>l' \<in> set win_lines. l' \<noteq> l \<longrightarrow> \<not> complete (board s) l') \<longrightarrow>
      check_win s = Some m) \<and>
   (state_ok s \<longrightarrow>
      (\<forall>l \<in> set win_lines. \<forall>m. is_mark m \<and> filled (board s) l m \<longrightarrow>
         (\<exists>w. is_mark w \<and> check_win s = Some w))) \<and>
   ((\<forall>l \<in> set win_lines. \<not> complete (board s) l) \<longrightarrow>
      check_win s = (if available_moves s = [] then Some TIE_RESULT else None)) \<and>
   (state_ok s \<and> list_all (\<lambda>n. is_mark (cell_of (board s) n)) [1..9] \<and>
      (\<forall>l \<in> set win_lines. \<not> complete (board s) l) \<longrightarrow>
      check_win s = Some TIE_RESULT)"
proof (intro conjI)
  show "check_win s = evaluate_spec s" by (rule check_win_evaluate_spec)
next
  show "\<forall>l \<in> set win_lines. \<forall>m.
      filled (board s) l m \<and> (\<forall>l' \<in> set win_lines. l' \<noteq> l \<longrightarrow> \<not> complete (board s) l') \<longrightarrow>
      check_win s = Some m"
  proof (intro ballI allI impI)
    fix l m
    assume l: "l \<in> set win_lines"
      and h: "filled (board s) l m \<and> (\<forall>l' \<in> set win_lines. l' \<noteq> l \<longrightarrow> \<not> complete (board s) l')"
    obtain p q r where pqr: "l = (p, q, r)" by (cases l) auto
    have c: "complete (board s) l" using h by (simp add: pqr filled_def complete_def)
    have "find (complete (board s)) win_lines = Some l"
      using find_only[of l win_lines "complete (board s)"] l c h by blast
    then show "check_win s = Some m"
      using h by (simp add: check_win_evaluate_spec evaluate_spec_def pqr filled_def)
  qed
next
  show "state_ok s \<longrightarrow>
      (\<forall>l \<in> set win_lines. \<forall>m. is_mark m \<and> filled (board s) l m \<longrightarrow>
         (\<exists>w. is_mark w \<and> check_win s = Some w))"
  proof (intro ballI allI impI)
    fix l m
    assume ok: "state_ok s" and l: "l \<in> set win_lines" and h: "is_mark m \<and> filled (board s) l m"
    have cells: "cells_ok (available_moves s) (board s)" using ok by (simp add: state_ok_def)
    have "complete (board s) l" using h by (cases l) (auto simp: filled_def complete_def)
    then obtain l' where l': "l' \<in> set win_lines" "complete (board s) l'"
      "check_win s = Some (square (board s) (fst l'))"
      using check_win_cases[of s] l by blast
    then show "\<exists>w. is_mark w \<and> check_win s = Some w"
      using complete_is_mark[OF cells l'(1,2)] by blast
  qed
next
  show "(\<forall>l \<in> set win_lines. \<not> complete (board s) l) \<longrightarrow>
      check_win s = (if available_moves s = [] then Some TIE_RESULT else None)"
    using check_win_cases[of s] by blast
next
  show "state_ok s \<and> list_all (\<lambda>n. is_mark (cell_of (board s) n)) [1..9] \<and>
      (\<forall>l \<in> set win_lines. \<not> complete (board s) l) \<longrightarrow>
      check_win s = Some TIE_RESULT"
    using check_win_cases[of s] state_ok_no_moves[of s] by auto
qed

text \<open>The top row filled by X evaluates to X; the full board without a line is a tie.\<close>

theorem check_win_evaluates_witness:
  "state_ok won_by_x \<and> filled (board won_by_x) ((0, 0), (0, 1), (0, 2)) ''X'' \<and>
   check_win won_by_x = Some ''X'' \<and>
   state_ok drawn_game \<and> list_all (\<lambda>n. is_mark (cell_of (board drawn_game) n)) [1..9] \<and>
   check_win drawn_game = Some ''tie''"
proof -
  have ok1: "state_ok won_by_x"
    by (simp add: won_by_x_def state_ok_def cells_ok_def board_ok_def cell_of_def is_mark_def
        PLAYER_X_def PLAYER_O_def upto.simps str_def digits_of.simps digit_char_def)
  have f1: "filled (board won_by_x) ((0, 0), (0, 1), (0, 2)) ''X''"
    by (simp add: won_by_x_def filled_def square_def)
  have o1: "\<forall>l' \<in> set win_lines. l' \<noteq> ((0, 0), (0, 1), (0, 2)) \<longrightarrow> \<not> complete (board won_by_x) l'"
    by (simp add: won_by_x_def win_lines_def complete_def square_def)
  have l1: "((0, 0), (0, 1), (0, 2)) \<in> set win_lines" by (simp add: win_lines_def)
  have w1: "check_win won_by_x = Some ''X''"
    using check_win_evaluates[of won_by_x] l1 f1 o1 by blast
  have ok2: "state_ok drawn_game"
    by (simp add: drawn_game_def state_ok_def cells_ok_def board_ok_def cell_of_def is_mark_def
        PLAYER_X_def PLAYER_O_def upto.simps)
  have m2: "list_all (\<lambda>n. is_mark (cell_of (board drawn_game) n)) [1..9]"
    by (simp add: drawn_game_def cell_of_def is_mark_def PLAYER_X_def PLAYER_O_def upto.simps)
  have n2: "\<forall>l \<in> set win_lines. \<not> complete (board drawn_game) l"
    by (simp add: drawn_game_def win_lines_def complete_def square_def)
  have "check_win drawn_game = Some TIE_RESULT"
    using check_win_evaluates[of drawn_game] ok2 m2 n2 by blast
  then have w2: "check_win drawn_game = Some ''tie''"
    by (simp add: TIE_RESULT_def)
  from ok1 f1 w1 ok2 m2 w2 show ?thesis by blast
qed

text \<open>
  Claim C10. In every state reachable from a fresh board, the result of \<^verbatim>\<open>check_win\<close> is
  undecided, the tie, X or O, and never the label of a position: the nine labels are
  pairwise distinct, so a line of three equal cells holds a mark.
\<close>

theorem check_win_never_label:
  assumes "reachable s"
  shows "(check_win s = None \<or> check_win s = Some TIE_RESULT \<or>
          check_win s = Some PLAYER_X \<or> check_win s = Some PLAYER_O) \<and>
         (\<forall>n \<in> {1..9}. check_win s \<noteq> Some (str n)) \<and>
         (\<forall>n \<in> {1..9}. \<forall>n' \<in> {1..9}. n \<noteq> n' \<longrightarrow> str n \<noteq> str n') \<and>
         (\<forall>l \<in> set win_lines. complete (board s) l \<longrightarrow> is_mark (square (board s) (fst l)))"
proof -
  have ok: "state_ok s" using assms by (rule reachable_state_ok)
  then have cells: "cells_ok (available_moves s) (board s)" by (simp add: state_ok_def)
  have marks: "\<forall>l \<in> set win_lines. complete (board s) l \<longrightarrow> is_mark (square (board s) (fst l))"
    using complete_is_mark[OF cells] by blast
  have res: "check_win s = None \<or> check_win s = Some TIE_RESULT \<or>
          check_win s = Some PLAYER_X \<or> check_win s = Some PLAYER_O"
    using check_win_cases[of s] marks by (auto simp: is_mark_def split: if_splits)
  have lab: "\<forall>n \<in> {1..9}. check_win s \<noteq> Some (str n)"
  proof
    fix n :: int assume "n \<in> {1..9}"
    then have n: "1 \<le> n" "n \<le> 9" by auto
    have "str n \<noteq> TIE_RESULT" unfolding str_digit[OF n] by (simp add: TIE_RESULT_def)
    moreover have "str n \<noteq> PLAYER_X" "str n \<noteq> PLAYER_O"
      using str_not_mark[OF n] by (auto simp: is_mark_def)
    ultimately show "check_win s \<noteq> Some (str n)" using res by auto
  qed
  have inj: "\<forall>n \<in> {1..9}. \<forall>n' \<in> {1..9}. n \<noteq> n' \<longrightarrow> str n \<noteq> str n'"
    using str_inj by auto
  from res lab inj marks show ?thesis by blast
qed

text \<open>The board won by X is reached by the placements 1, 4, 2, 5, 3 with a change of turn
  between them, and evaluates to X.\<close>

theorem check_win_never_label_witness:
  "reachable won_by_x \<and> check_win won_by_x = Some PLAYER_X"
proof -
  have step: "get_user_move (switch_player s) [Some n] = Inr (s', []) \<Longrightarrow> reachable s \<Longrightarrow> reachable s'"
    for s n s'
    using reachable.switch reachable.user_move by blast
  have 0: "reachable new_game" unfolding new_game_def by (rule reachable.fresh)
  have 1: "reachable \<lparr>available_moves = [2, 3, 4, 5, 6, 7, 8, 9], current_player = ''X'',
      board = [[''X'', ''2'', ''3''], [''4'', ''5'', ''6''], [''7'', ''8'', ''9'']]\<rparr>"
    by (rule reachable.user_move[OF 0, of "[Some 1]" _ "[]"])
       (simp add: new_game_eq apply_move_def divmod_def py_index_def)
  have 2: "reachable \<lparr>available_moves = [2, 3, 5, 6, 7, 8, 9], current_player = ''O'',
      board = [[''X'', ''2'', ''3''], [''O'', ''5'', ''6''], [''7'', ''8'', ''9'']]\<rparr>"
    by (rule step[OF _ 1, of 4])
       (simp add: switch_player_def PLAYER_X_def PLAYER_O_def apply_move_def divmod_def py_index_def)
  have 3: "reachable \<lparr>available_moves = [3, 5, 6, 7, 8, 9], current_player = ''X'',
      board = [[''X'', ''X'', ''3''], [''O'', ''5'', ''6''], [''7'', ''8'', ''9'']]\<rparr>"
    by (rule step[OF _ 2, of 2])
       (simp add: switch_player_def PLAYER_X_def PLAYER_O_def apply_move_def divmod_def py_index_def)
  have 4: "reachable \<lparr>available_moves = [3, 6, 7, 8, 9], current_player = ''O'',
      board = [[''X'', ''X'', ''3''], [''O'', ''O'', ''6''], [''7'', ''8'', ''9'']]\<rparr>"
    by (rule step[OF _ 3, of 5])
       (simp add: switch_player_def PLAYER_X_def PLAYER_O_def apply_move_def divmod_def py_index_def)
  have 5: "reachable won_by_x"
    unfolding won_by_x_def
    by (rule step[OF _ 4, of 3])
       (simp add: switch_player_def PLAYER_X_def PLAYER_O_def apply_move_def divmod_def py_index_def)
  have "check_win won_by_x \<noteq> Some TIE_RESULT \<and> check_win won_by_x \<noteq> None \<and>
        check_win won_by_x \<noteq> Some PLAYER_O"
    by (simp add: won_by_x_def check_win_def upt_3 TIE_RESULT_def PLAYER_O_def)
  then have "check_win won_by_x = Some PLAYER_X"
    using check_win_never_label[OF 5, THEN conjunct1] by auto
  with 5 show ?thesis by blast
qed

lemma avail_length_le:
  assumes "state_ok s"
  shows "length (available_moves s) \<le> 9"
proof -
  have d: "distinct (available_moves s)" and r: "set (available_moves s) \<subseteq> {1..9}"
    using assms by (auto simp: state_ok_def list_all_iff)
  have "length (available_moves s) = card (set (available_moves s))"
    using d by (simp add: distinct_card)
  also have "\<dots> \<le> card {1..9::int}" using r by (intro card_mono) simp_all
  finally show ?thesis by simp
qed

lemma marks_differ: "PLAYER_X \<noteq> PLAYER_O"
  by (simp add: PLAYER_X_def PLAYER_O_def)

lemma placement_step:
  assumes ok: "state_ok s" and n: "n \<in> set (available_moves s)" and a: "apply_move s n = Inr s1"
  shows "state_ok s1" "placed s1 = Suc (placed s)" "current_player s1 = current_player s"
    "cell_of (board s1) n = current_player s" "available_moves s1 = remove1 n (available_moves s)"
proof -
  have bok: "board_ok (board s)" and rng: "1 \<le> n" "n \<le> 9"
    using ok n by (auto simp: state_ok_def list_all_iff)
  note eq = apply_move_ok[OF bok rng]
  from state_ok_apply_move[OF ok n] a show "state_ok s1" by auto
  have len: "length (available_moves s) \<le> 9" by (rule avail_length_le[OF ok])
  have pos: "0 < length (available_moves s)" using n by (cases "available_moves s") auto
  from a eq have s1: "s1 = s\<lparr>board := (board s)[nat ((n - 1) div 3) :=
                               (board s ! nat ((n - 1) div 3))[nat ((n - 1) mod 3) := current_player s]],
                  available_moves := remove1 n (available_moves s)\<rparr>" by simp
  show "available_moves s1 = remove1 n (available_moves s)" by (simp add: s1)
  show "current_player s1 = current_player s" by (simp add: s1)
  have "length (available_moves s1) = length (available_moves s) - 1"
    using n by (simp add: s1 length_remove1)
  then show "placed s1 = Suc (placed s)"
    using len pos unfolding placed_def by arith
  show "cell_of (board s1) n = current_player s"
    using cell_of_update[OF bok rng rng] by (simp add: s1)
qed

lemma turn_after_placement:
  assumes "turn_ok s" "placed s1 = Suc (placed s)" "current_player s1 = current_player s"
  shows "turn_ok (switch_player s1)"
  using assms marks_differ by (simp add: turn_ok_def switch_player_def placed_def)

lemma user_placement:
  assumes ok: "state_ok s" and g: "get_user_move s es = Inr (s1, rest)"
  shows "state_ok s1" "placed s1 = Suc (placed s)" "current_player s1 = current_player s"
    "\<exists>n \<in> set (available_moves s). cell_of (board s1) n = current_player s \<and>
        available_moves s1 = remove1 n (available_moves s)"
proof -
  from get_user_move_result[OF g] obtain n where n: "n \<in> set (available_moves s)"
    and a: "apply_move s n = Inr s1" by blast
  note p = placement_step[OF ok n a]
  show "state_ok s1" "placed s1 = Suc (placed s)" "current_player s1 = current_player s"
    by (rule p)+
  show "\<exists>n \<in> set (available_moves s). cell_of (board s1) n = current_player s \<and>
        available_moves s1 = remove1 n (available_moves s)"
    using n p(4,5) by blast
qed

lemma undecided_has_moves:
  assumes ok: "state_ok s" and u: "\<not> truthy (check_win s)"
  shows "available_moves s \<noteq> []"
proof
  assume e: "available_moves s = []"
  have cells: "cells_ok (available_moves s) (board s)" using ok by (simp add: state_ok_def)
  from check_win_cases[of s] show False
  proof
    assume "\<exists>l \<in> set win_lines. complete (board s) l \<and> check_win s = Some (square (board s) (fst l))"
    then obtain l where l: "l \<in> set win_lines" "complete (board s) l"
      "check_win s = Some (square (board s) (fst l))" by blast
    from complete_is_mark[OF cells l(1,2)] l(3) u show False
      by (auto simp: truthy_def is_mark_def PLAYER_X_def PLAYER_O_def)
  next
    assume "(\<forall>l \<in> set win_lines. \<not> complete (board s) l) \<and>
      check_win s = (if available_moves s = [] then Some TIE_RESULT else None)"
    with e u show False by (simp add: truthy_def TIE_RESULT_def)
  qed
qed

lemma ai_placement:
  assumes ok: "state_ok s" and m: "available_moves s \<noteq> []"
  shows "\<exists>s3. get_ai_move s r = Inr s3 \<and> state_ok s3 \<and> placed s3 = Suc (placed s) \<and>
           current_player s3 = current_player s \<and>
           (\<exists>n \<in> set (available_moves s). cell_of (board s3) n = current_player s \<and>
              available_moves s3 = remove1 n (available_moves s))"
proof -
  let ?n = "available_moves s ! (r mod length (available_moves s))"
  have n: "?n \<in> set (available_moves s)" using m by simp
  from state_ok_apply_move[OF ok n] obtain s3 where a: "apply_move s ?n = Inr s3" by blast
  note p = placement_step[OF ok n a]
  have "get_ai_move s r = Inr s3" using m a by (simp add: get_ai_move_def)
  with p n show ?thesis by blast
qed

lemma switch_twice:
  assumes "is_mark (current_player s)"
  shows "switch_player (switch_player s) = s" "current_player (switch_player s) \<noteq> current_player s"
    "is_mark (current_player (switch_player s))"
  using assms marks_differ by (auto simp: switch_player_def is_mark_def)

lemma game_decided_cases:
  "game_decided s io = Inr (f, s', io') \<Longrightarrow>
     (f = Break \<and> s' = s) \<or> (f = Continue \<and> s' = reset_game s)"
  by (auto simp: game_decided_def split: list.splits if_splits)

lemma turn_ok_reset: "turn_ok (reset_game s)"
  by (simp add: turn_ok_def placed_def reset_game_def upto.simps)

lemma switch_player_moves: "available_moves (switch_player s) = available_moves s"
  by (simp add: switch_player_def)

lemma play_iter_unfold:
  assumes g: "get_user_move s (entries io) = Inr (s1, rest)"
  shows "play_iter rnd ai_mode s io =
     (if truthy (check_win s1) then game_decided s1 (io\<lparr>entries := rest\<rparr>)
      else if ai_mode \<and> available_moves s1 \<noteq> [] then
        (case get_ai_move (switch_player s1) (rnd (drawn io)) of
           Inl e \<Rightarrow> Inl e
         | Inr s3 \<Rightarrow>
             if truthy (check_win s3)
             then game_decided s3 (io\<lparr>entries := rest, drawn := Suc (drawn io)\<rparr>)
             else Inr (Continue, switch_player s3, io\<lparr>entries := rest, drawn := Suc (drawn io)\<rparr>))
      else Inr (Continue, switch_player s1, io\<lparr>entries := rest\<rparr>))"
  using g by (simp add: play_iter_def Let_def switch_player_moves split: sum.splits)

lemma loop_head_inv: "loop_head rnd ai_mode s \<Longrightarrow> state_ok s \<and> turn_ok s"
proof (induction rule: loop_head.induct)
  case (start s)
  show ?case by (simp add: state_ok_reset turn_ok_reset)
next
  case (pass s io s' io')
  then have ok: "state_ok s" and t: "turn_ok s" by simp_all
  from pass.hyps(2) obtain s1 rest where g: "get_user_move s (entries io) = Inr (s1, rest)"
    by (auto simp: play_iter_def split: sum.splits)
  note u = user_placement[OF ok g]
  note it = pass.hyps(2)[unfolded play_iter_unfold[OF g]]
  have t2: "turn_ok (switch_player s1)" by (rule turn_after_placement[OF t u(2,3)])
  have ok2: "state_ok (switch_player s1)" by (rule state_ok_switch[OF u(1)])
  show ?case
  proof (cases "truthy (check_win s1)")
    case True
    with it have "game_decided s1 (io\<lparr>entries := rest\<rparr>) = Inr (Continue, s', io')" by simp
    from game_decided_cases[OF this] have "s' = reset_game s1" by simp
    then show ?thesis by (simp add: state_ok_reset turn_ok_reset)
  next
    case False
    note und = this
    show ?thesis
    proof (cases "ai_mode \<and> available_moves s1 \<noteq> []")
      case False
      with und it have "s' = switch_player s1" by auto
      then show ?thesis using t2 ok2 by simp
    next
      case True
      then have "available_moves (switch_player s1) \<noteq> []" by (simp add: switch_player_moves)
      from ai_placement[OF ok2 this, of "rnd (drawn io)"] obtain s3 where
        a: "get_ai_move (switch_player s1) (rnd (drawn io)) = Inr s3" and ok3: "state_ok s3"
        and p3: "placed s3 = Suc (placed (switch_player s1))"
          "current_player s3 = current_player (switch_player s1)" by blast
      have t3: "turn_ok (switch_player s3)" by (rule turn_after_placement[OF t2 p3])
      show ?thesis
      proof (cases "truthy (check_win s3)")
        case True
        with it und \<open>ai_mode \<and> available_moves s1 \<noteq> []\<close> a
        have "game_decided s3 (io\<lparr>entries := rest, drawn := Suc (drawn io)\<rparr>) =
                Inr (Continue, s', io')" by simp
        from game_decided_cases[OF this] have "s' = reset_game s3" by simp
        then show ?thesis by (simp add: state_ok_reset turn_ok_reset)
      next
        case False
        with it und \<open>ai_mode \<and> available_moves s1 \<noteq> []\<close> a have "s' = switch_player s3" by auto
        then show ?thesis using t3 state_ok_switch[OF ok3] by simp
      qed
    qed
  qed
qed

text \<open>
  Claim C9, as the code has it. In every reachable state the current player is X or O, and
  \<^verbatim>\<open>switch_player\<close> applied twice gives the state back. In a session that starts on a
  fresh board, at the head of the loop it is the turn of X when the number of marks on the
  board is even and of O when it is odd, so the marks placed in a game alternate X, O, X,
  O. A placement, by the user or by the automated player, writes the mark of the current
  player and is followed by exactly one change of turn when it leaves the game undecided;
  a placement that decides the game is followed by the rematch question and no change of
  turn: the loop is left with the state as it is, or the game is reset, which gives the
  turn to X.
\<close>

theorem turns_alternate:
  "(reachable s \<longrightarrow>
      is_mark (current_player s) \<and> switch_player (switch_player s) = s \<and>
      current_player (switch_player s) \<noteq> current_player s) \<and>
   (loop_head rnd ai_mode s \<longrightarrow> state_ok s \<and> turn_ok s) \<and>
   (loop_head rnd ai_mode s \<and> get_user_move s (entries io) = Inr (s1, rest) \<longrightarrow>
      placed s1 = Suc (placed s) \<and>
      (\<exists>n \<in> set (available_moves s). cell_of (board s1) n = current_player s) \<and>
      (truthy (check_win s1) \<longrightarrow>
         play_iter rnd ai_mode s io = game_decided s1 (io\<lparr>entries := rest\<rparr>)) \<and>
      (\<not> truthy (check_win s1) \<and> \<not> ai_mode \<longrightarrow>
         play_iter rnd ai_mode s io = Inr (Continue, switch_player s1, io\<lparr>entries := rest\<rparr>) \<and>
         current_player (switch_player s1) \<noteq> current_player s \<and>
         turn_ok (switch_player s1)) \<and>
      (\<not> truthy (check_win s1) \<and> ai_mode \<longrightarrow>
         (\<exists>s3. get_ai_move (switch_player s1) (rnd (drawn io)) = Inr s3 \<and>
            placed s3 = Suc (placed s1) \<and>
            current_player (switch_player s1) \<noteq> current_player s \<and>
            (\<exists>n \<in> set (available_moves s1).
               cell_of (board s3) n = current_player (switch_player s1)) \<and>
            (truthy (check_win s3) \<longrightarrow>
               play_iter rnd ai_mode s io =
                 game_decided s3 (io\<lparr>entries := rest, drawn := Suc (drawn io)\<rparr>)) \<and>
            (\<not> truthy (check_win s3) \<longrightarrow>
               play_iter rnd ai_mode s io =
                 Inr (Continue, switch_player s3, io\<lparr>entries := rest, drawn := Suc (drawn io)\<rparr>) \<and>
               current_player (switch_player s3) = current_player s \<and>
               turn_ok (switch_player s3))))) \<and>
   (game_decided s io = Inr (f, s', io') \<longrightarrow>
      (f = Break \<and> s' = s) \<or>
      (f = Continue \<and> s' = reset_game s \<and> current_player s' = PLAYER_X))"
proof (intro conjI impI)
  assume "reachable s"
  then have m: "is_mark (current_player s)" using reachable_state_ok by (simp add: state_ok_def)
  show "is_mark (current_player s)" by (rule m)
  show "switch_player (switch_player s) = s" by (rule switch_twice(1)[OF m])
  show "current_player (switch_player s) \<noteq> current_player s" by (rule switch_twice(2)[OF m])
next
  assume "loop_head rnd ai_mode s"
  then show "state_ok s" "turn_ok s" using loop_head_inv by blast+
next
  assume "game_decided s io = Inr (f, s', io')"
  from game_decided_cases[OF this]
  show "(f = Break \<and> s' = s) \<or> (f = Continue \<and> s' = reset_game s \<and> current_player s' = PLAYER_X)"
    by (auto simp: reset_game_def)
next
  assume h: "loop_head rnd ai_mode s \<and> get_user_move s (entries io) = Inr (s1, rest)"
  then have ok: "state_ok s" and t: "turn_ok s" and g: "get_user_move s (entries io) = Inr (s1, rest)"
    using loop_head_inv by blast+
  note u = user_placement[OF ok g]
  note unf = play_iter_unfold[OF g, of rnd ai_mode]
  have m1: "is_mark (current_player s1)" using u(1) by (simp add: state_ok_def)
  have ok2: "state_ok (switch_player s1)" by (rule state_ok_switch[OF u(1)])
  have t2: "turn_ok (switch_player s1)" by (rule turn_after_placement[OF t u(2,3)])
  have c2: "current_player (switch_player s1) \<noteq> current_player s"
    using switch_twice(2)[OF m1] u(3) by simp
  show "placed s1 = Suc (placed s)" by (rule u(2))
  show "\<exists>n \<in> set (available_moves s). cell_of (board s1) n = current_player s"
    using u(4) by blast
  show "play_iter rnd ai_mode s io = game_decided s1 (io\<lparr>entries := rest\<rparr>)"
    if "truthy (check_win s1)" using that unf by simp
  show "play_iter rnd ai_mode s io = Inr (Continue, switch_player s1, io\<lparr>entries := rest\<rparr>)"
    "current_player (switch_player s1) \<noteq> current_player s" "turn_ok (switch_player s1)"
    if "\<not> truthy (check_win s1) \<and> \<not> ai_mode" using that unf c2 t2 by simp_all
  show "\<exists>s3. get_ai_move (switch_player s1) (rnd (drawn io)) = Inr s3 \<and>
            placed s3 = Suc (placed s1) \<and>
            current_player (switch_player s1) \<noteq> current_player s \<and>
            (\<exists>n \<in> set (available_moves s1).
               cell_of (board s3) n = current_player (switch_player s1)) \<and>
            (truthy (check_win s3) \<longrightarrow>
               play_iter rnd ai_mode s io =
                 game_decided s3 (io\<lparr>entries := rest, drawn := Suc (drawn io)\<rparr>)) \<and>
            (\<not> truthy (check_win s3) \<longrightarrow>
               play_iter rnd ai_mode s io =
                 Inr (Continue, switch_player s3, io\<lparr>entries := rest, drawn := Suc (drawn io)\<rparr>) \<and>
               current_player (switch_player s3) = current_player s \<and>
               turn_ok (switch_player s3))"
    if a: "\<not> truthy (check_win s1) \<and> ai_mode"
  proof -
    have mv: "available_moves s1 \<noteq> []" using undecided_has_moves[OF u(1)] a by simp
    then have mv2: "available_moves (switch_player s1) \<noteq> []" by (simp add: switch_player_moves)
    from ai_placement[OF ok2 mv2, of "rnd (drawn io)"] obtain s3 where
      ai: "get_ai_move (switch_player s1) (rnd (drawn io)) = Inr s3" and ok3: "state_ok s3"
      and p3: "placed s3 = Suc (placed (switch_player s1))"
        "current_player s3 = current_player (switch_player s1)"
      and w3: "\<exists>n \<in> set (available_moves (switch_player s1)).
                 cell_of (board s3) n = current_player (switch_player s1) \<and>
                 available_moves s3 = remove1 n (available_moves (switch_player s1))"
      by blast
    have pl: "placed s3 = Suc (placed s1)" using p3(1) by (simp add: placed_def switch_player_moves)
    have w: "\<exists>n \<in> set (available_moves s1). cell_of (board s3) n = current_player (switch_player s1)"
      using w3 by (auto simp: switch_player_moves)
    have m3: "is_mark (current_player s3)" using ok3 by (simp add: state_ok_def)
    have same: "current_player (switch_player s3) = current_player s"
    proof -
      have "switch_player s3 = s3\<lparr>current_player := current_player (switch_player (switch_player s1))\<rparr>"
        using p3(2) by (simp add: switch_player_def)
      then show ?thesis using switch_twice(1)[OF m1] u(3) by simp
    qed
    have t3: "turn_ok (switch_player s3)" by (rule turn_after_placement[OF t2 p3])
    have run: "play_iter rnd ai_mode s io =
                 (if truthy (check_win s3)
                  then game_decided s3 (io\<lparr>entries := rest, drawn := Suc (drawn io)\<rparr>)
                  else Inr (Continue, switch_player s3, io\<lparr>entries := rest, drawn := Suc (drawn io)\<rparr>))"
      using unf a mv ai by simp
    from ai pl c2 w run same t3 show ?thesis by auto
  qed
qed

text \<open>
  Four runs. A new game with two human players and the entry 5: the centre is taken by X,
  the game is undecided, and the turn passes to O. The same with the automated player:
  it places O on position 1 and the turn is back with X. The board one placement before
  the win of X is at the head of the loop after four passes; the entry 3 decides the game
  and the pass ends in the rematch question, here answered with no. And on a new game two
  changes of turn give the state back.
\<close>

theorem turns_alternate_witness:
  "loop_head no_draws False new_game \<and>
   play_iter no_draws False new_game \<lparr>entries = [Some 5], answers = [], drawn = 0\<rparr> =
     Inr (Continue,
          \<lparr>available_moves = [1, 2, 3, 4, 6, 7, 8, 9], current_player = ''O'',
           board = [[''1'', ''2'', ''3''], [''4'', ''X'', ''6''], [''7'', ''8'', ''9'']]\<rparr>,
          \<lparr>entries = [], answers = [], drawn = 0\<rparr>) \<and>
   loop_head no_draws True new_game \<and>
   play_iter no_draws True new_game \<lparr>entries = [Some 5], answers = [], drawn = 0\<rparr> =
     Inr (Continue,
          \<lparr>available_moves = [2, 3, 4, 6, 7, 8, 9], current_player = ''X'',
           board = [[''O'', ''2'', ''3''], [''4'', ''X'', ''6''], [''7'', ''8'', ''9'']]\<rparr>,
          \<lparr>entries = [], answers = [], drawn = 1\<rparr>) \<and>
   loop_head no_draws False x_about_to_win \<and>
   play_iter no_draws False x_about_to_win \<lparr>entries = [Some 3], answers = [False], drawn = 0\<rparr> =
     Inr (Break, won_by_x, \<lparr>entries = [], answers = [], drawn = 0\<rparr>) \<and>
   reachable new_game \<and> switch_player (switch_player new_game) = new_game"
proof -
  let ?s1 = "\<lparr>available_moves = [1, 2, 3, 4, 6, 7, 8, 9], current_player = ''X'',
           board = [[''1'', ''2'', ''3''], [''4'', ''X'', ''6''], [''7'', ''8'', ''9'']]\<rparr>"
  let ?s3 = "\<lparr>available_moves = [2, 3, 4, 6, 7, 8, 9], current_player = ''O'',
           board = [[''O'', ''2'', ''3''], [''4'', ''X'', ''6''], [''7'', ''8'', ''9'']]\<rparr>"
  let ?io = "\<lparr>entries = [Some 5], answers = [], drawn = 0\<rparr>"
  let ?iw = "\<lparr>entries = [Some 3], answers = [False], drawn = 0\<rparr>"
  have h: "loop_head no_draws False new_game" and ha: "loop_head no_draws True new_game"
    unfolding new_game_def by (rule loop_head.start)+
  have g: "get_user_move new_game (entries ?io) = Inr (?s1, [])"
    by code_simp
  have u: "\<not> truthy (check_win ?s1)"
    by code_simp
  from turns_alternate[where rnd = no_draws and ai_mode = False and s = new_game and io = ?io
      and ?s1.0 = ?s1 and rest = "[]"] h g u
  have "play_iter no_draws False new_game ?io = Inr (Continue, switch_player ?s1, ?io\<lparr>entries := []\<rparr>)"
    by blast
  moreover have "switch_player ?s1 = \<lparr>available_moves = [1, 2, 3, 4, 6, 7, 8, 9], current_player = ''O'',
           board = [[''1'', ''2'', ''3''], [''4'', ''X'', ''6''], [''7'', ''8'', ''9'']]\<rparr>"
    by code_simp
  ultimately have one: "play_iter no_draws False new_game ?io =
     Inr (Continue,
          \<lparr>available_moves = [1, 2, 3, 4, 6, 7, 8, 9], current_player = ''O'',
           board = [[''1'', ''2'', ''3''], [''4'', ''X'', ''6''], [''7'', ''8'', ''9'']]\<rparr>,
          \<lparr>entries = [], answers = [], drawn = 0\<rparr>)"
    by simp
  have a3: "get_ai_move (switch_player ?s1) (no_draws (drawn ?io)) = Inr ?s3"
    and u3: "\<not> truthy (check_win ?s3)"
    by code_simp+
  from turns_alternate[where rnd = no_draws and ai_mode = True and s = new_game and io = ?io
      and ?s1.0 = ?s1 and rest = "[]"] ha g u
  obtain t3 where t3: "get_ai_move (switch_player ?s1) (no_draws (drawn ?io)) = Inr t3"
    and d3: "truthy (check_win t3) \<longrightarrow>
               play_iter no_draws True new_game ?io =
                 game_decided t3 (?io\<lparr>entries := [], drawn := Suc (drawn ?io)\<rparr>)"
    and c3: "\<not> truthy (check_win t3) \<longrightarrow>
               play_iter no_draws True new_game ?io =
                 Inr (Continue, switch_player t3, ?io\<lparr>entries := [], drawn := Suc (drawn ?io)\<rparr>)"
    by blast
  from t3 a3 have "t3 = ?s3" by simp
  with c3 u3 have "play_iter no_draws True new_game ?io =
                 Inr (Continue, switch_player ?s3, ?io\<lparr>entries := [], drawn := Suc (drawn ?io)\<rparr>)"
    by blast
  moreover have "switch_player ?s3 = \<lparr>available_moves = [2, 3, 4, 6, 7, 8, 9], current_player = ''X'',
           board = [[''O'', ''2'', ''3''], [''4'', ''X'', ''6''], [''7'', ''8'', ''9'']]\<rparr>"
    by code_simp
  ultimately have two: "play_iter no_draws True new_game ?io =
     Inr (Continue,
          \<lparr>available_moves = [2, 3, 4, 6, 7, 8, 9], current_player = ''X'',
           board = [[''O'', ''2'', ''3''], [''4'', ''X'', ''6''], [''7'', ''8'', ''9'']]\<rparr>,
          \<lparr>entries = [], answers = [], drawn = 1\<rparr>)"
    by simp
  have p1: "play_iter no_draws False new_game \<lparr>entries = [Some 1], answers = [], drawn = 0\<rparr> =
      Inr (Continue, \<lparr>available_moves = [2, 3, 4, 5, 6, 7, 8, 9], current_player = ''O'',
           board = [[''X'', ''2'', ''3''], [''4'', ''5'', ''6''], [''7'', ''8'', ''9'']]\<rparr>,
         \<lparr>entries = [], answers = [], drawn = 0\<rparr>)"
    by code_simp
  have p2: "play_iter no_draws False \<lparr>available_moves = [2, 3, 4, 5, 6, 7, 8, 9], current_player = ''O'',
           board = [[''X'', ''2'', ''3''], [''4'', ''5'', ''6''], [''7'', ''8'', ''9'']]\<rparr>
         \<lparr>entries = [Some 4], answers = [], drawn = 0\<rparr> =
      Inr (Continue, \<lparr>available_moves = [2, 3, 5, 6, 7, 8, 9], current_player = ''X'',
           board = [[''X'', ''2'', ''3''], [''O'', ''5'', ''6''], [''7'', ''8'', ''9'']]\<rparr>,
         \<lparr>entries = [], answers = [], drawn = 0\<rparr>)"
    by code_simp
  have p3: "play_iter no_draws False \<lparr>available_moves = [2, 3, 5, 6, 7, 8, 9], current_player = ''X'',
           board = [[''X'', ''2'', ''3''], [''O'', ''5'', ''6''], [''7'', ''8'', ''9'']]\<rparr>
         \<lparr>entries = [Some 2], answers = [], drawn = 0\<rparr> =
      Inr (Continue, \<lparr>available_moves = [3, 5, 6, 7, 8, 9], current_player = ''O'',
           board = [[''X'', ''X'', ''3''], [''O'', ''5'', ''6''], [''7'', ''8'', ''9'']]\<rparr>,
         \<lparr>entries = [], answers = [], drawn = 0\<rparr>)"
    by code_simp
  have p4: "play_iter no_draws False \<lparr>available_moves = [3, 5, 6, 7, 8, 9], current_player = ''O'',
           board = [[''X'', ''X'', ''3''], [''O'', ''5'', ''6''], [''7'', ''8'', ''9'']]\<rparr>
         \<lparr>entries = [Some 5], answers = [], drawn = 0\<rparr> =
      Inr (Continue, x_about_to_win, \<lparr>entries = [], answers = [], drawn = 0\<rparr>)"
    by code_simp
  have hw: "loop_head no_draws False x_about_to_win"
    by (rule loop_head.pass[OF loop_head.pass[OF loop_head.pass[OF loop_head.pass[OF h p1] p2] p3] p4])
  have gw: "get_user_move x_about_to_win (entries ?iw) = Inr (won_by_x, [])"
    and uw: "truthy (check_win won_by_x)"
    and dw: "game_decided won_by_x (?iw\<lparr>entries := []\<rparr>) =
               Inr (Break, won_by_x, \<lparr>entries = [], answers = [], drawn = 0\<rparr>)"
    by code_simp+
  from turns_alternate[where rnd = no_draws and ai_mode = False and s = x_about_to_win
      and io = ?iw and ?s1.0 = won_by_x and rest = "[]"] hw gw uw
  have "play_iter no_draws False x_about_to_win ?iw = game_decided won_by_x (?iw\<lparr>entries := []\<rparr>)"
    by blast
  with dw have three: "play_iter no_draws False x_about_to_win ?iw =
      Inr (Break, won_by_x, \<lparr>entries = [], answers = [], drawn = 0\<rparr>)"
    by simp
  have r: "reachable new_game" unfolding new_game_def by (rule reachable.fresh)
  with turns_alternate[where s = new_game]
  have four: "switch_player (switch_player new_game) = new_game" by blast
  from h one ha two hw three r four show ?thesis by blast
qed

text \<open>
  Claim C9 as stated fails at a placement that decides the game. From a new game with two
  human players the entries 1, 4, 2, 5, 3 are five placements; the fifth, by X, completes
  the top row, and the session ends with X still the current player: the pass of the loop
  that places it leaves the current player as it was.
\<close>

theorem deciding_placement_keeps_turn:
  "ttt_play no_draws new_game
      \<lparr>entries = [Some 1, Some 4, Some 2, Some 5, Some 3], answers = [False, False], drawn = 0\<rparr> =
     Inr (won_by_x, \<lparr>entries = [], answers = [], drawn = 0\<rparr>) \<and>
   play_iter no_draws False x_about_to_win \<lparr>entries = [Some 3], answers = [False], drawn = 0\<rparr> =
     Inr (Break, won_by_x, \<lparr>entries = [], answers = [], drawn = 0\<rparr>) \<and>
   placed x_about_to_win = 4 \<and> placed won_by_x = 5 \<and>
   current_player x_about_to_win = PLAYER_X \<and> current_player won_by_x = PLAYER_X"
  by code_simp

section \<open>Rock-paper-scissors: rounds, scores and menus\<close>


lemma add_win_scores:
  assumes "map_of (scores s) key = Some v"
  shows "add_win s key = Inr (s\<lparr>scores := AList.update key (v + 1) (scores s)\<rparr>)"
  using assms by (simp add: add_win_def)




text \<open>
  Claim C8. An entry of the settings menu that selects "Require Names" toggles
  \<open>require_names\<close> and sets \<open>has_names\<close> to false, whatever the two were before, and shows
  the settings menu again.
\<close>

theorem require_names_toggle_clears_has_names:
  assumes "strip (lower line) \<in> set [''1'', ''require names'', ''n'']"
  shows "settings_menu rnd (Suc d) s (line # rest) k =
           settings_menu rnd d (toggle_require_names s) rest k \<and>
         has_names (toggle_require_names s) = False \<and>
         require_names (toggle_require_names s) = (\<not> require_names s) \<and>
         toggle_require_names s = s\<lparr>require_names := \<not> require_names s, has_names := False\<rparr>"
  using assms by (simp add: toggle_require_names_def)

text \<open>With names already acquired, the entry "N" in the settings, then "4" (back to the
  game menu) and "3" (leave): names are no longer required and \<open>has_names\<close> is false.\<close>

theorem require_names_toggle_clears_has_names_witness:
  "settings_menu no_draws 3 (new_rps\<lparr>has_names := True\<rparr>) ['' N '', ''4'', ''3''] 0 =
     Inr ((), new_rps\<lparr>require_names := False, has_names := False\<rparr>, [], 0) \<and>
   has_names (new_rps\<lparr>has_names := True\<rparr>) \<and>
   \<not> has_names (new_rps\<lparr>require_names := False, has_names := False\<rparr>)"
proof -
  have n: "strip (lower '' N '') = ''n''" and t4: "strip (lower ''4'') = ''4''"
    and t3: "strip (lower ''3'') = ''3''" by code_simp+
  have h: "strip (lower '' N '') \<in> set [''1'', ''require names'', ''n'']" by (simp add: n)
  have "settings_menu no_draws (Suc 2) (new_rps\<lparr>has_names := True\<rparr>) ('' N '' # [''4'', ''3'']) 0 =
          settings_menu no_draws 2 (toggle_require_names (new_rps\<lparr>has_names := True\<rparr>)) [''4'', ''3''] 0"
    using require_names_toggle_clears_has_names[OF h] by blast
  also have "\<dots> = Inr ((), new_rps\<lparr>require_names := False, has_names := False\<rparr>, [], 0)"
    by (simp add: eval_nat_numeral t4 t3 toggle_require_names_def new_rps_def reset_settings_def
        menu_choices_def)
  finally show ?thesis by (simp add: eval_nat_numeral)
qed

text \<open>
  Claim C7. An entry of the settings menu that selects "Two Player Mode" toggles
  \<open>two_player_mode\<close>, leaves \<open>require_names\<close> as it is, and sets the name of player 2 to
  "Player 2" exactly when, after the toggle, \<open>two_player_mode\<close> is true and
  \<open>require_names\<close> is false, and to "The Bot" for every other combination of the two flags.
\<close>

theorem two_player_toggle_sets_player2_name:
  assumes "strip (lower line) \<in> set [''2'', ''two player mode'', ''t'']"
  shows "settings_menu rnd (Suc d) s (line # rest) k =
           settings_menu rnd d (toggle_two_player_mode s) rest k \<and>
         two_player_mode (toggle_two_player_mode s) = (\<not> two_player_mode s) \<and>
         require_names (toggle_two_player_mode s) = require_names s \<and>
         player2_name (toggle_two_player_mode s) =
           (if two_player_mode (toggle_two_player_mode s) \<and>
               \<not> require_names (toggle_two_player_mode s)
            then ''Player 2'' else ''The Bot'') \<and>
         (player2_name (toggle_two_player_mode s) = ''Player 2'' \<longleftrightarrow>
            two_player_mode (toggle_two_player_mode s) \<and>
            \<not> require_names (toggle_two_player_mode s)) \<and>
         (player2_name (toggle_two_player_mode s) = ''The Bot'' \<longleftrightarrow>
            \<not> (two_player_mode (toggle_two_player_mode s) \<and>
               \<not> require_names (toggle_two_player_mode s)))"
  using assms by (auto simp: toggle_two_player_mode_def Let_def)

text \<open>On a new object, where names are required, "t" gives "The Bot"; after "n" has
  switched the names off, "t" gives "Player 2".\<close>

theorem two_player_toggle_sets_player2_name_witness:
  "settings_menu no_draws 3 new_rps [''t'', ''4'', ''3''] 0 =
     Inr ((), new_rps\<lparr>two_player_mode := True, player2_name := ''The Bot''\<rparr>, [], 0) \<and>
   settings_menu no_draws 4 new_rps [''n'', ''t'', ''4'', ''3''] 0 =
     Inr ((), new_rps\<lparr>require_names := False, two_player_mode := True,
                       player2_name := ''Player 2''\<rparr>, [], 0)"
proof -
  have t: "strip (lower ''t'') = ''t''" and n: "strip (lower ''n'') = ''n''"
    and t4: "strip (lower ''4'') = ''4''" and t3: "strip (lower ''3'') = ''3''" by code_simp+
  have h: "strip (lower ''t'') \<in> set [''2'', ''two player mode'', ''t'']" by (simp add: t)
  have "settings_menu no_draws (Suc 2) new_rps (''t'' # [''4'', ''3'']) 0 =
          settings_menu no_draws 2 (toggle_two_player_mode new_rps) [''4'', ''3''] 0"
    using two_player_toggle_sets_player2_name[OF h] by blast
  also have "\<dots> = Inr ((), new_rps\<lparr>two_player_mode := True, player2_name := ''The Bot''\<rparr>, [], 0)"
    by (simp add: eval_nat_numeral t4 t3 toggle_two_player_mode_def new_rps_def reset_settings_def
        menu_choices_def)
  finally have a: "settings_menu no_draws 3 new_rps [''t'', ''4'', ''3''] 0 =
     Inr ((), new_rps\<lparr>two_player_mode := True, player2_name := ''The Bot''\<rparr>, [], 0)"
    by (simp add: eval_nat_numeral)
  have "settings_menu no_draws 4 new_rps [''n'', ''t'', ''4'', ''3''] 0 =
          settings_menu no_draws (Suc 2) (toggle_require_names new_rps) (''t'' # [''4'', ''3'']) 0"
    by (simp add: eval_nat_numeral n)
  also have "\<dots> = settings_menu no_draws 2
                      (toggle_two_player_mode (toggle_require_names new_rps)) [''4'', ''3''] 0"
    using two_player_toggle_sets_player2_name[OF h] by blast
  also have "\<dots> = Inr ((), new_rps\<lparr>require_names := False, two_player_mode := True,
                       player2_name := ''Player 2''\<rparr>, [], 0)"
    by (simp add: eval_nat_numeral t4 t3 toggle_two_player_mode_def toggle_require_names_def
        new_rps_def reset_settings_def menu_choices_def)
  finally show ?thesis using a by simp
qed






















lemma scores_grow_refl: "has_scores s \<Longrightarrow> scores_grow s s"
  by (auto simp: has_scores_def scores_grow_def score_keys_def)


lemma scores_grow_same: "scores t = scores s \<Longrightarrow> scores_grow t u = scores_grow s u"
  by (simp add: scores_grow_def)
















end
